theory Spec2Isabelle
  imports Complex_Main "HOL-Library.Multiset"
begin

section \<open>Pareto-Lorenz curves and Gini coefficients: the data model\<close>

text \<open>
  The program \<^verbatim>\<open>pl_curve.py\<close> works on pandas data frames. A data frame is modelled as
  its list of column names together with its rows in index order; a row is the index
  label (the bin identifier) and one cell per column. Cells are floating-point numbers
  in the program; the model takes them as exact rationals, so every statement below is
  about the arithmetic the program asks for, not about rounding. Every cell holds a
  number: missing cells are not modelled.

  A data frame is rectangular (every row has one cell per column), and its column names
  are unique: \<^verbatim>\<open>read_csv\<close> renames repeated headers, and the sample frames only ever get
  columns through assignment by name. Index labels are not made unique by pandas, so the
  operations that go through a label are modelled with the failure pandas raises when a
  label is repeated.
\<close>

datatype error = KeyError | TypeError | ValueError | IndexError | ZeroDivisionError | SystemExit

record dataframe =
  columns :: "string list"
  rows :: "(string \<times> rat list) list"

definition rect :: "dataframe \<Rightarrow> bool" where
  "rect df = list_all (\<lambda>row. length (snd row) = length (columns df)) (rows df)"

definition index :: "dataframe \<Rightarrow> string list" where
  "index df = map fst (rows df)"

text \<open>Python's built-in \<^verbatim>\<open>sum\<close>: addition from the left, starting at 0.\<close>

definition py_sum :: "rat list \<Rightarrow> rat" where
  "py_sum xs = foldl (+) 0 xs"

text \<open>\<^verbatim>\<open>df.loc[:, col]\<close> for the \<open>j\<close>-th column name, and \<^verbatim>\<open>df.iloc[:, 0]\<close>.\<close>

definition loc_col :: "dataframe \<Rightarrow> nat \<Rightarrow> rat list" where
  "loc_col df j = map (\<lambda>row. snd row ! j) (rows df)"

section \<open>Validator\<close>

text \<open>
  \<^verbatim>\<open>check_columns\<close>: the loop over the columns returns False at the first column whose
  total is below 0.9999 or above 1.0001, and True when it runs to the end.
\<close>

fun check_columns_loop :: "dataframe \<Rightarrow> nat list \<Rightarrow> bool" where
  "check_columns_loop df [] = True"
| "check_columns_loop df (j # js) =
     (let total = py_sum (loc_col df j)
      in if total < 9999 / 10000 \<or> total > 10001 / 10000 then False
         else check_columns_loop df js)"

definition check_columns :: "dataframe \<Rightarrow> bool" where
  "check_columns df = check_columns_loop df [0..<length (columns df)]"

section \<open>Pruner\<close>

text \<open>
  \<^verbatim>\<open>df.loc[row_index]\<close> selects by label: every row that carries the label.
  \<^verbatim>\<open>df.drop(row_index)\<close> gives a new frame without the rows that carry the label.
\<close>

definition loc_rows :: "dataframe \<Rightarrow> string \<Rightarrow> (string \<times> rat list) list" where
  "loc_rows df r = filter (\<lambda>row. fst row = r) (rows df)"

definition drop_label :: "string \<Rightarrow> dataframe \<Rightarrow> dataframe" where
  "drop_label r df = df\<lparr>rows := filter (\<lambda>row. fst row \<noteq> r) (rows df)\<rparr>"

text \<open>
  \<^verbatim>\<open>remove_zeros\<close>: the loop runs over the index of the frame it was given, while
  \<^verbatim>\<open>df\<close> is rebound to the reduced frame after each drop. With one row under the label
  the selection is that row and \<^verbatim>\<open>sum\<close> adds its cells. With several rows under the
  label the selection is a frame, \<^verbatim>\<open>sum\<close> runs over its column names and raises
  TypeError on the first one (with no column at all it returns 0 and the rows are
  dropped). A label that is gone from the frame raises KeyError.
\<close>

fun remove_zeros_loop :: "string list \<Rightarrow> dataframe \<Rightarrow> error + dataframe" where
  "remove_zeros_loop [] df = Inr df"
| "remove_zeros_loop (row_index # rest) df =
     (case loc_rows df row_index of
        [] \<Rightarrow> Inl KeyError
      | [row] \<Rightarrow>
          if py_sum (snd row) = 0 then remove_zeros_loop rest (drop_label row_index df)
          else remove_zeros_loop rest df
      | _ \<Rightarrow>
          if columns df = [] then remove_zeros_loop rest (drop_label row_index df)
          else Inl TypeError)"

definition remove_zeros :: "dataframe \<Rightarrow> error + dataframe" where
  "remove_zeros df = remove_zeros_loop (index df) df"

section \<open>Ranker\<close>

text \<open>
  \<^verbatim>\<open>sort_bins\<close> makes one frame per column: the column's (label, value) pairs, ordered by
  \<^verbatim>\<open>Series.sort_values(ascending=False)\<close>, as a frame with that single column. The
  sorting routine belongs to pandas, not to the program, and is a parameter of
  \<^verbatim>\<open>sort_bins\<close> and of \<^verbatim>\<open>run\<close> here.
\<close>

type_synonym series = "(string \<times> rat) list"

definition loc_series :: "dataframe \<Rightarrow> nat \<Rightarrow> series" where
  "loc_series df j = map (\<lambda>row. (fst row, snd row ! j)) (rows df)"

definition to_frame :: "string \<Rightarrow> series \<Rightarrow> dataframe" where
  "to_frame name xs = \<lparr>columns = [name], rows = map (\<lambda>(l, v). (l, [v])) xs\<rparr>"

definition sort_bins :: "(series \<Rightarrow> series) \<Rightarrow> dataframe \<Rightarrow> dataframe list" where
  "sort_bins sort_values df =
     map (\<lambda>j. to_frame (columns df ! j) (sort_values (loc_series df j))) [0..<length (columns df)]"

text \<open>
  Modelled from the spec: \<^verbatim>\<open>Series.sort_values(ascending=False)\<close>, the sorting routine of
  pandas, which is not part of the program's source. The specification of the Ranker has
  the bins sorted by abundance descending with a stable sort: bins of equal abundance keep
  their order in the table. Here that is an insertion sort on the negated value.
\<close>

definition sort_values_descending :: "series \<Rightarrow> series" where
  "sort_values_descending xs = sort_key (\<lambda>p. - snd p) xs"

section \<open>Curve Builder\<close>

text \<open>
  \<^verbatim>\<open>sample[name] = values\<close>: a column of that name gets the new values, otherwise the
  column is appended. The program always assigns as many values as the frame has rows.
\<close>

fun index_of :: "'a \<Rightarrow> 'a list \<Rightarrow> nat option" where
  "index_of x [] = None"
| "index_of x (y # ys) = (if x = y then Some 0 else map_option Suc (index_of x ys))"

definition set_column :: "string \<Rightarrow> rat list \<Rightarrow> dataframe \<Rightarrow> dataframe" where
  "set_column name vals df =
     (case index_of name (columns df) of
        Some j \<Rightarrow> df\<lparr>rows := map (\<lambda>(row, v). (fst row, (snd row)[j := v])) (zip (rows df) vals)\<rparr>
      | None \<Rightarrow> df\<lparr>columns := columns df @ [name],
                   rows := map (\<lambda>(row, v). (fst row, snd row @ [v])) (zip (rows df) vals)\<rparr>)"

text \<open>\<^verbatim>\<open>df[name]\<close>: the values of the column of that name, KeyError without it.\<close>

definition get_column :: "dataframe \<Rightarrow> string \<Rightarrow> error + rat list" where
  "get_column df name =
     (case index_of name (columns df) of
        None \<Rightarrow> Inl KeyError
      | Some j \<Rightarrow> Inr (loc_col df j))"

text \<open>A loop over a list of samples stops at the first sample that raises.\<close>

fun for_each :: "('a \<Rightarrow> error + 'b) \<Rightarrow> 'a list \<Rightarrow> error + 'b list" where
  "for_each f [] = Inr []"
| "for_each f (x # xs) =
     (case f x of
        Inl e \<Rightarrow> Inl e
      | Inr y \<Rightarrow> (case for_each f xs of Inl e \<Rightarrow> Inl e | Inr ys \<Rightarrow> Inr (y # ys)))"

text \<open>
  \<^verbatim>\<open>calculate_cumulative_relative_abundance\<close>: the inner loop reads
  \<^verbatim>\<open>sample.iloc[i][0]\<close>, the first cell of row \<open>i\<close> (IndexError in a frame without
  columns), and appends it, from the second row on added to the previous entry of the
  list.
\<close>

fun cum_rel_abund_loop :: "dataframe \<Rightarrow> nat list \<Rightarrow> rat list \<Rightarrow> error + rat list" where
  "cum_rel_abund_loop sample [] cum_rel_abund = Inr cum_rel_abund"
| "cum_rel_abund_loop sample (i # is) cum_rel_abund =
     (if columns sample = [] then Inl IndexError
      else if i > 0 then
        cum_rel_abund_loop sample is
          (cum_rel_abund @ [snd (rows sample ! i) ! 0 + cum_rel_abund ! (i - 1)])
      else cum_rel_abund_loop sample is (cum_rel_abund @ [snd (rows sample ! i) ! 0]))"

definition cum_rel_abund_sample :: "dataframe \<Rightarrow> error + dataframe" where
  "cum_rel_abund_sample sample =
     (case cum_rel_abund_loop sample [0..<length (rows sample)] [] of
        Inl e \<Rightarrow> Inl e
      | Inr cum_rel_abund \<Rightarrow> Inr (set_column ''Cum Rel Abund'' cum_rel_abund sample))"

definition calculate_cumulative_relative_abundance :: "dataframe list \<Rightarrow> error + dataframe list" where
  "calculate_cumulative_relative_abundance samples = for_each cum_rel_abund_sample samples"

text \<open>
  \<^verbatim>\<open>remove_cumulative_abundance_over_one\<close>: the loop runs over the labels of the sample.
  \<^verbatim>\<open>col["Cum Rel Abund"][row_index]\<close> needs the column (KeyError without it) and is a
  number when one row carries the label; with several rows it is a series, whose
  comparison with the threshold raises ValueError in the \<^verbatim>\<open>elif\<close>. Once \<^verbatim>\<open>found\<close>
  is set, each further label is dropped from \<^verbatim>\<open>new_frame\<close>, KeyError if it is no
  longer there.
\<close>

fun over_one_loop :: "dataframe \<Rightarrow> string list \<Rightarrow> bool \<Rightarrow> dataframe \<Rightarrow> error + dataframe" where
  "over_one_loop col [] found new_frame = Inr new_frame"
| "over_one_loop col (row_index # rest) found new_frame =
     (case index_of ''Cum Rel Abund'' (columns col) of
        None \<Rightarrow> Inl KeyError
      | Some j \<Rightarrow>
          if found then
            (if row_index \<in> set (index new_frame)
             then over_one_loop col rest True (drop_label row_index new_frame)
             else Inl KeyError)
          else
            (case loc_rows col row_index of
               [] \<Rightarrow> Inl KeyError
             | [row] \<Rightarrow>
                 if snd row ! j > 999999 / 1000000 then over_one_loop col rest True new_frame
                 else over_one_loop col rest False new_frame
             | _ \<Rightarrow> Inl ValueError))"

definition over_one_sample :: "dataframe \<Rightarrow> error + dataframe" where
  "over_one_sample col = over_one_loop col (index col) False col"

definition remove_cumulative_abundance_over_one :: "dataframe list \<Rightarrow> error + dataframe list" where
  "remove_cumulative_abundance_over_one samples = for_each over_one_sample samples"

text \<open>
  \<^verbatim>\<open>calculate_cumulative_prop_trf\<close>: entry \<open>i\<close> of the new column is
  \<^verbatim>\<open>(i+1) / len(sample)\<close>, a true division of integers; inside the loop the frame has
  a row, so the divisor is not 0.
\<close>

fun cum_prop_trfs_loop :: "dataframe \<Rightarrow> nat list \<Rightarrow> rat list \<Rightarrow> rat list" where
  "cum_prop_trfs_loop sample [] cum_prop_trfs = cum_prop_trfs"
| "cum_prop_trfs_loop sample (i # is) cum_prop_trfs =
     cum_prop_trfs_loop sample is
       (cum_prop_trfs @ [of_nat (i + 1) / of_nat (length (rows sample))])"

definition cum_prop_trf_sample :: "dataframe \<Rightarrow> dataframe" where
  "cum_prop_trf_sample sample =
     set_column ''Cum Prop TRFs'' (cum_prop_trfs_loop sample [0..<length (rows sample)] []) sample"

definition calculate_cumulative_prop_trf :: "dataframe list \<Rightarrow> dataframe list" where
  "calculate_cumulative_prop_trf samples = map cum_prop_trf_sample samples"

section \<open>Inequality Scorer\<close>

text \<open>
  The results of \<^verbatim>\<open>calculate_gini\<close> are numpy floats: dividing by a zero mean gives
  NaN (0/0) or infinity and a warning, not an exception, and the mean of no values is
  NaN.
\<close>

datatype fnum = Fin rat | PInf | NaN

definition calculate_gini :: "rat list \<Rightarrow> fnum" where
  "calculate_gini x =
     (if x = [] then NaN
      else
        let mad = py_sum (concat (map (\<lambda>a. map (\<lambda>b. \<bar>a - b\<bar>) x) x)) / of_nat (length x * length x);
            mean = py_sum x / of_nat (length x)
        in if mean = 0 then (if mad = 0 then NaN else PInf)
           else Fin (1 / 2 * (mad / mean)))"

text \<open>A float times the finite factor \<^verbatim>\<open>n / (n - 1)\<close>.\<close>

fun fmul :: "fnum \<Rightarrow> rat \<Rightarrow> fnum" where
  "fmul (Fin a) q = Fin (a * q)"
| "fmul PInf q = (if q > 0 then PInf else NaN)"
| "fmul NaN q = NaN"

text \<open>
  \<^verbatim>\<open>make_gini_file\<close>: the result table has one row per title, empty at first. For each
  sample the title is its first column name (IndexError without columns), the Gini
  coefficient is taken over its first column, and \<^verbatim>\<open>len(col) / (len(col)-1)\<close> is a
  division of Python integers, which raises ZeroDivisionError when the sample has one
  row. The three cells are written to every row of the result that has the title.
\<close>

record gini_cells =
  Gini :: fnum
  Corrected_Gini :: fnum
  n_cell :: nat

type_synonym gini_df = "(string \<times> gini_cells option) list"

fun titles_loop :: "dataframe list \<Rightarrow> error + string list" where
  "titles_loop [] = Inr []"
| "titles_loop (col # cols) =
     (case columns col of
        [] \<Rightarrow> Inl IndexError
      | title # _ \<Rightarrow> (case titles_loop cols of Inl e \<Rightarrow> Inl e | Inr ts \<Rightarrow> Inr (title # ts)))"

definition set_gini_row :: "string \<Rightarrow> gini_cells \<Rightarrow> gini_df \<Rightarrow> gini_df" where
  "set_gini_row title cells g = map (\<lambda>(t, c). if t = title then (t, Some cells) else (t, c)) g"

fun gini_loop :: "dataframe list \<Rightarrow> gini_df \<Rightarrow> error + gini_df" where
  "gini_loop [] g = Inr g"
| "gini_loop (col # cols) g =
     (case columns col of
        [] \<Rightarrow> Inl IndexError
      | title # _ \<Rightarrow>
          let gini = calculate_gini (loc_col col 0);
              len = length (rows col)
          in if int len - 1 = 0 then Inl ZeroDivisionError
             else
               let corrected_gini = fmul gini (of_nat len / (of_nat len - 1))
               in gini_loop cols
                    (set_gini_row title \<lparr>Gini = gini, Corrected_Gini = corrected_gini, n_cell = len\<rparr> g))"

definition make_gini_file :: "dataframe list \<Rightarrow> error + gini_df" where
  "make_gini_file samples =
     (case titles_loop samples of
        Inl e \<Rightarrow> Inl e
      | Inr titles \<Rightarrow> gini_loop samples (map (\<lambda>t. (t, None)) titles))"

section \<open>The pipeline\<close>

text \<open>
  \<^verbatim>\<open>run\<close>, from the table that was read: the returned samples and the table of
  coefficients that is written out. A table that fails the check ends the process with
  exit status 1. Reading the file, drawing the graph (\<^verbatim>\<open>make_graph\<close> only reads the
  samples) and writing the coefficients are left out.
\<close>

definition run :: "(series \<Rightarrow> series) \<Rightarrow> dataframe \<Rightarrow> error + (dataframe list \<times> gini_df)" where
  "run sort_values df =
     (if check_columns df then
        (case remove_zeros df of
           Inl e \<Rightarrow> Inl e
         | Inr df1 \<Rightarrow>
             (case calculate_cumulative_relative_abundance (sort_bins sort_values df1) of
                Inl e \<Rightarrow> Inl e
              | Inr samples1 \<Rightarrow>
                  (case remove_cumulative_abundance_over_one samples1 of
                     Inl e \<Rightarrow> Inl e
                   | Inr samples2 \<Rightarrow>
                       let samples = calculate_cumulative_prop_trf samples2
                       in (case make_gini_file samples of
                             Inl e \<Rightarrow> Inl e
                           | Inr g \<Rightarrow> Inr (samples, g)))))
      else Inl SystemExit)"

section \<open>Example tables and auxiliary notions\<close>

text \<open>
  Two samples over three bins, A = 0.5, 0.3, 0.2 and B = 0.34, 0.33, 0.33.
\<close>

definition table_AB :: dataframe where
  "table_AB = \<lparr>columns = [''A'', ''B''],
               rows = [(''bin1'', [1/2, 34/100]), (''bin2'', [3/10, 33/100]), (''bin3'', [2/10, 33/100])]\<rparr>"

text \<open>A table whose first column sums to 0.5 and whose second column sums to 1.5.\<close>

definition table_half :: dataframe where
  "table_half = \<lparr>columns = [''A'', ''B''],
                 rows = [(''bin1'', [1/4, 1]), (''bin2'', [1/4, 1/2])]\<rparr>"

text \<open>
  Four bins, the last one zero in both samples; in sample A the second bin is zero, so
  that its cumulative abundance is complete after two of its three remaining bins.
\<close>

definition table_trunc :: dataframe where
  "table_trunc = \<lparr>columns = [''A'', ''B''],
                  rows = [(''bin1'', [6/10, 1/2]), (''bin2'', [0, 2/10]),
                          (''bin3'', [4/10, 3/10]), (''bin4'', [0, 0])]\<rparr>"

text \<open>Sample A has all of its abundance in one bin.\<close>

definition table_one :: dataframe where
  "table_one = \<lparr>columns = [''A'', ''B''],
                rows = [(''bin1'', [1, 6/10]), (''bin2'', [0, 4/10])]\<rparr>"

text \<open>The abundance table of the data model holds non-negative values.\<close>

definition nonneg :: "dataframe \<Rightarrow> bool" where
  "nonneg df = list_all (\<lambda>row. list_all (\<lambda>v. 0 \<le> v) (snd row)) (rows df)"

text \<open>The running total of a list of values up to and including position \<open>i\<close>.\<close>

definition running :: "rat list \<Rightarrow> nat \<Rightarrow> rat" where
  "running a i = sum_list (take (Suc i) a)"

text \<open>The two samples of the example table as ranked one-column frames.\<close>

definition table_AB_ranked :: "dataframe list" where
  "table_AB_ranked =
     [\<lparr>columns = [''A''], rows = [(''bin1'', [1/2]), (''bin2'', [3/10]), (''bin3'', [2/10])]\<rparr>,
      \<lparr>columns = [''B''], rows = [(''bin1'', [34/100]), (''bin2'', [33/100]), (''bin3'', [33/100])]\<rparr>]"

text \<open>
  The rows up to and including the first one whose cell in column \<open>j\<close> is over 0.999999;
  all rows when there is none.
\<close>

definition keep_rows :: "nat \<Rightarrow> (string \<times> rat list) list \<Rightarrow> (string \<times> rat list) list" where
  "keep_rows j rs =
     takeWhile (\<lambda>row. \<not> snd row ! j > 999999 / 1000000) rs @
     take 1 (dropWhile (\<lambda>row. \<not> snd row ! j > 999999 / 1000000) rs)"

text \<open>
  The samples of a table after ranking and accumulation: in the first the cumulative
  abundance is complete at the second row, in the second it never passes the threshold.
\<close>

definition table_trunc_cum :: "dataframe list" where
  "table_trunc_cum =
     [\<lparr>columns = [''A'', ''Cum Rel Abund''],
       rows = [(''bin1'', [6/10, 6/10]), (''bin3'', [4/10, 1]), (''bin2'', [0, 1])]\<rparr>,
      \<lparr>columns = [''B'', ''Cum Rel Abund''],
       rows = [(''bin1'', [1/2, 1/2]), (''bin3'', [3/10, 8/10]), (''bin2'', [1/10, 9/10])]\<rparr>]"

text \<open>What the pipeline returns for the table with a truncated sample.\<close>

definition table_trunc_samples :: "dataframe list" where
  "table_trunc_samples =
     [\<lparr>columns = [''A'', ''Cum Rel Abund'', ''Cum Prop TRFs''],
       rows = [(''bin1'', [6/10, 6/10, 1/2]), (''bin3'', [4/10, 1, 1])]\<rparr>,
      \<lparr>columns = [''B'', ''Cum Rel Abund'', ''Cum Prop TRFs''],
       rows = [(''bin1'', [1/2, 1/2, 1/3]), (''bin3'', [3/10, 8/10, 2/3]), (''bin2'', [2/10, 1, 1])]\<rparr>]"

definition table_trunc_gini :: gini_df where
  "table_trunc_gini =
     [(''A'', Some \<lparr>Gini = Fin (1/10), Corrected_Gini = Fin (1/5), n_cell = 2\<rparr>),
      (''B'', Some \<lparr>Gini = Fin (1/5), Corrected_Gini = Fin (3/10), n_cell = 3\<rparr>)]"

text \<open>
  The three cells \<^verbatim>\<open>make_gini_file\<close> writes for a sample: the Gini coefficient of its
  first column, that value times \<^verbatim>\<open>len(col) / (len(col)-1)\<close>, and \<^verbatim>\<open>len(col)\<close>.
\<close>

definition gini_cells_of :: "dataframe \<Rightarrow> gini_cells" where
  "gini_cells_of col =
     \<lparr>Gini = calculate_gini (loc_col col 0),
      Corrected_Gini = fmul (calculate_gini (loc_col col 0))
                         (of_nat (length (rows col)) / (of_nat (length (rows col)) - 1)),
      n_cell = length (rows col)\<rparr>"

text \<open>The table with a truncated sample after pruning.\<close>

definition table_trunc_pruned :: dataframe where
  "table_trunc_pruned =
     \<lparr>columns = [''A'', ''B''],
      rows = [(''bin1'', [6/10, 1/2]), (''bin2'', [0, 2/10]), (''bin3'', [4/10, 3/10])]\<rparr>"

text \<open>
  The samples of the table whose sample A has one bin with all the abundance, as they
  reach the scorer; and two samples of which the first has no rows.
\<close>

definition table_one_samples :: "dataframe list" where
  "table_one_samples =
     [\<lparr>columns = [''A'', ''Cum Rel Abund'', ''Cum Prop TRFs''],
       rows = [(''bin1'', [1, 1, 1])]\<rparr>,
      \<lparr>columns = [''B'', ''Cum Rel Abund'', ''Cum Prop TRFs''],
       rows = [(''bin1'', [6/10, 6/10, 1/2]), (''bin2'', [4/10, 1, 1])]\<rparr>]"

definition empty_sample_first :: "dataframe list" where
  "empty_sample_first =
     [\<lparr>columns = [''A'', ''Cum Rel Abund'', ''Cum Prop TRFs''], rows = []\<rparr>,
      \<lparr>columns = [''B'', ''Cum Rel Abund'', ''Cum Prop TRFs''],
       rows = [(''bin1'', [6/10, 6/10, 1/2]), (''bin2'', [4/10, 1, 1])]\<rparr>]"

text \<open>The ranked series of a one-column sample frame.\<close>

definition series_of :: "dataframe \<Rightarrow> series" where
  "series_of sample = map (\<lambda>row. (fst row, snd row ! 0)) (rows sample)"

section \<open>The pipeline on a store of frames\<close>

text \<open>
  In the program a data frame is an object, and a variable holds a reference to it.
  \<^verbatim>\<open>drop\<close>, \<^verbatim>\<open>sort_values\<close> and \<^verbatim>\<open>to_frame\<close> make a new object;
  \<^verbatim>\<open>sample[name] = values\<close> changes the object that \<^verbatim>\<open>sample\<close> refers to. The store
  is the list of the frames made so far, a reference is a position in it, and a new
  frame goes to the end.
\<close>

type_synonym ref = nat
type_synonym store = "dataframe list"

definition new_frame :: "dataframe \<Rightarrow> store \<Rightarrow> ref \<times> store" where
  "new_frame f h = (length h, h @ [f])"

text \<open>
  \<^verbatim>\<open>remove_zeros\<close> on the store: \<^verbatim>\<open>df = df.drop(row_index)\<close> rebinds \<^verbatim>\<open>df\<close> to a
  new frame.
\<close>

fun remove_zeros_loop_st :: "string list \<Rightarrow> ref \<Rightarrow> store \<Rightarrow> error + (ref \<times> store)" where
  "remove_zeros_loop_st [] df h = Inr (df, h)"
| "remove_zeros_loop_st (row_index # rest) df h =
     (case loc_rows (h ! df) row_index of
        [] \<Rightarrow> Inl KeyError
      | [row] \<Rightarrow>
          if py_sum (snd row) = 0 then
            (case new_frame (drop_label row_index (h ! df)) h of
               (df', h') \<Rightarrow> remove_zeros_loop_st rest df' h')
          else remove_zeros_loop_st rest df h
      | _ \<Rightarrow>
          if columns (h ! df) = [] then
            (case new_frame (drop_label row_index (h ! df)) h of
               (df', h') \<Rightarrow> remove_zeros_loop_st rest df' h')
          else Inl TypeError)"

definition remove_zeros_st :: "ref \<Rightarrow> store \<Rightarrow> error + (ref \<times> store)" where
  "remove_zeros_st df h = remove_zeros_loop_st (index (h ! df)) df h"

text \<open>\<^verbatim>\<open>sort_bins\<close> on the store: one new frame per column.\<close>

fun sort_bins_loop_st ::
  "(series \<Rightarrow> series) \<Rightarrow> ref \<Rightarrow> nat list \<Rightarrow> store \<Rightarrow> ref list \<times> store" where
  "sort_bins_loop_st sort_values df [] h = ([], h)"
| "sort_bins_loop_st sort_values df (j # js) h =
     (case new_frame (to_frame (columns (h ! df) ! j) (sort_values (loc_series (h ! df) j))) h of
        (data, h1) \<Rightarrow>
          (case sort_bins_loop_st sort_values df js h1 of
             (samples, h2) \<Rightarrow> (data # samples, h2)))"

definition sort_bins_st :: "(series \<Rightarrow> series) \<Rightarrow> ref \<Rightarrow> store \<Rightarrow> ref list \<times> store" where
  "sort_bins_st sort_values df h =
     sort_bins_loop_st sort_values df [0..<length (columns (h ! df))] h"

text \<open>
  A loop over the samples that appends the frame of each step to \<^verbatim>\<open>samples2\<close>, on the
  store.
\<close>

fun for_each_st ::
  "(ref \<Rightarrow> store \<Rightarrow> error + (ref \<times> store)) \<Rightarrow> ref list \<Rightarrow> store \<Rightarrow> error + (ref list \<times> store)" where
  "for_each_st body [] h = Inr ([], h)"
| "for_each_st body (sample # samples) h =
     (case body sample h of
        Inl e \<Rightarrow> Inl e
      | Inr (sample2, h1) \<Rightarrow>
          (case for_each_st body samples h1 of
             Inl e \<Rightarrow> Inl e
           | Inr (samples2, h2) \<Rightarrow> Inr (sample2 # samples2, h2)))"

text \<open>
  \<^verbatim>\<open>calculate_cumulative_relative_abundance\<close> on the store: the assignment
  \<^verbatim>\<open>sample['Cum Rel Abund'] = cum_rel_abund\<close> changes the frame of the caller, and that
  same frame is appended to the result.
\<close>

definition cum_rel_abund_sample_st :: "ref \<Rightarrow> store \<Rightarrow> error + (ref \<times> store)" where
  "cum_rel_abund_sample_st sample h =
     (case cum_rel_abund_loop (h ! sample) [0..<length (rows (h ! sample))] [] of
        Inl e \<Rightarrow> Inl e
      | Inr cum_rel_abund \<Rightarrow>
          Inr (sample, h[sample := set_column ''Cum Rel Abund'' cum_rel_abund (h ! sample)]))"

definition calculate_cumulative_relative_abundance_st ::
  "ref list \<Rightarrow> store \<Rightarrow> error + (ref list \<times> store)" where
  "calculate_cumulative_relative_abundance_st samples h = for_each_st cum_rel_abund_sample_st samples h"

text \<open>
  \<^verbatim>\<open>remove_cumulative_abundance_over_one\<close> on the store: \<^verbatim>\<open>new_frame\<close> starts as the
  sample itself and is rebound to a new frame by each drop.
\<close>

fun over_one_loop_st ::
  "ref \<Rightarrow> string list \<Rightarrow> bool \<Rightarrow> ref \<Rightarrow> store \<Rightarrow> error + (ref \<times> store)" where
  "over_one_loop_st col [] found nf h = Inr (nf, h)"
| "over_one_loop_st col (row_index # rest) found nf h =
     (case index_of ''Cum Rel Abund'' (columns (h ! col)) of
        None \<Rightarrow> Inl KeyError
      | Some j \<Rightarrow>
          if found then
            (if row_index \<in> set (index (h ! nf))
             then (case new_frame (drop_label row_index (h ! nf)) h of
                     (nf', h') \<Rightarrow> over_one_loop_st col rest True nf' h')
             else Inl KeyError)
          else
            (case loc_rows (h ! col) row_index of
               [] \<Rightarrow> Inl KeyError
             | [row] \<Rightarrow>
                 if snd row ! j > 999999 / 1000000 then over_one_loop_st col rest True nf h
                 else over_one_loop_st col rest False nf h
             | _ \<Rightarrow> Inl ValueError))"

definition over_one_sample_st :: "ref \<Rightarrow> store \<Rightarrow> error + (ref \<times> store)" where
  "over_one_sample_st col h = over_one_loop_st col (index (h ! col)) False col h"

definition remove_cumulative_abundance_over_one_st ::
  "ref list \<Rightarrow> store \<Rightarrow> error + (ref list \<times> store)" where
  "remove_cumulative_abundance_over_one_st samples h = for_each_st over_one_sample_st samples h"

text \<open>
  \<^verbatim>\<open>calculate_cumulative_prop_trf\<close> on the store: again an assignment to the frame of
  the caller.
\<close>

definition cum_prop_trf_sample_st :: "ref \<Rightarrow> store \<Rightarrow> error + (ref \<times> store)" where
  "cum_prop_trf_sample_st sample h =
     Inr (sample,
          h[sample := set_column ''Cum Prop TRFs''
                        (cum_prop_trfs_loop (h ! sample) [0..<length (rows (h ! sample))] [])
                        (h ! sample)])"

definition calculate_cumulative_prop_trf_st ::
  "ref list \<Rightarrow> store \<Rightarrow> error + (ref list \<times> store)" where
  "calculate_cumulative_prop_trf_st samples h = for_each_st cum_prop_trf_sample_st samples h"

text \<open>
  \<^verbatim>\<open>run\<close> on the store: \<^verbatim>\<open>read_csv\<close> makes the frame of the table that was read;
  \<^verbatim>\<open>check_columns\<close> and \<^verbatim>\<open>make_gini_file\<close> only read their frames. The result is the
  list of sample references, the table of coefficients and the store at the end.
\<close>

definition run_st ::
  "(series \<Rightarrow> series) \<Rightarrow> dataframe \<Rightarrow> store \<Rightarrow> error + (ref list \<times> gini_df \<times> store)" where
  "run_st sort_values input h =
     (case new_frame input h of
        (df, h0) \<Rightarrow>
          if check_columns (h0 ! df) then
            (case remove_zeros_st df h0 of
               Inl e \<Rightarrow> Inl e
             | Inr (df1, h1) \<Rightarrow>
                 (case sort_bins_st sort_values df1 h1 of
                    (samples0, h2) \<Rightarrow>
                      (case calculate_cumulative_relative_abundance_st samples0 h2 of
                         Inl e \<Rightarrow> Inl e
                       | Inr (samples1, h3) \<Rightarrow>
                           (case remove_cumulative_abundance_over_one_st samples1 h3 of
                              Inl e \<Rightarrow> Inl e
                            | Inr (samples2, h4) \<Rightarrow>
                                (case calculate_cumulative_prop_trf_st samples2 h4 of
                                   Inl e \<Rightarrow> Inl e
                                 | Inr (samples, h5) \<Rightarrow>
                                     (case make_gini_file (map (\<lambda>r. h5 ! r) samples) of
                                        Inl e \<Rightarrow> Inl e
                                      | Inr g \<Rightarrow> Inr (samples, g, h5)))))))
          else Inl SystemExit)"

text \<open>The frame, or the frames, that the result of a stage refers to.\<close>

definition frame_of :: "error + (ref \<times> store) \<Rightarrow> error + dataframe" where
  "frame_of res = (case res of Inl e \<Rightarrow> Inl e | Inr (r, h) \<Rightarrow> Inr (h ! r))"

definition frames_of :: "error + (ref list \<times> store) \<Rightarrow> error + dataframe list" where
  "frames_of res = (case res of Inl e \<Rightarrow> Inl e | Inr (rs, h) \<Rightarrow> Inr (map (\<lambda>r. h ! r) rs))"

text \<open>What a caller of \<^verbatim>\<open>run\<close> sees: the returned frames and the coefficients.\<close>

definition outcome :: "error + (ref list \<times> gini_df \<times> store) \<Rightarrow> error + (dataframe list \<times> gini_df)" where
  "outcome res = (case res of Inl e \<Rightarrow> Inl e | Inr (samples, g, h) \<Rightarrow> Inr (map (\<lambda>r. h ! r) samples, g))"

text \<open>
  A store with a one-sample table and the sample frame made from it, and the store of the
  two ranked samples of the example table after the cumulative abundance was added.
\<close>

definition store_example :: store where
  "store_example =
     [\<lparr>columns = [''A''], rows = [(''bin1'', [1]), (''bin2'', [0])]\<rparr>,
      \<lparr>columns = [''A'', ''Cum Rel Abund''], rows = [(''bin1'', [1, 1]), (''bin2'', [0, 1])]\<rparr>]"

definition table_AB_cum :: store where
  "table_AB_cum =
     [\<lparr>columns = [''A'', ''Cum Rel Abund''],
       rows = [(''bin1'', [1/2, 1/2]), (''bin2'', [3/10, 8/10]), (''bin3'', [2/10, 1])]\<rparr>,
      \<lparr>columns = [''B'', ''Cum Rel Abund''],
       rows = [(''bin1'', [34/100, 34/100]), (''bin2'', [33/100, 67/100]), (''bin3'', [33/100, 1])]\<rparr>]"

text \<open>
  The samples of the table whose sample A has one bin with all the abundance: after the
  cumulative abundance was added, and after truncation.
\<close>

definition table_one_cum :: "dataframe list" where
  "table_one_cum =
     [\<lparr>columns = [''A'', ''Cum Rel Abund''], rows = [(''bin1'', [1, 1]), (''bin2'', [0, 1])]\<rparr>,
      \<lparr>columns = [''B'', ''Cum Rel Abund''],
       rows = [(''bin1'', [6/10, 6/10]), (''bin2'', [4/10, 1])]\<rparr>]"

definition table_one_truncated :: "dataframe list" where
  "table_one_truncated =
     [\<lparr>columns = [''A'', ''Cum Rel Abund''], rows = [(''bin1'', [1, 1])]\<rparr>,
      \<lparr>columns = [''B'', ''Cum Rel Abund''],
       rows = [(''bin1'', [6/10, 6/10]), (''bin2'', [4/10, 1])]\<rparr>]"

text \<open>
  \<^verbatim>\<open>check_columns\<close> and \<^verbatim>\<open>make_gini_file\<close> on the store: their loops read the frames
  they were given and assign to none of them.
\<close>

fun check_columns_loop_st :: "ref \<Rightarrow> nat list \<Rightarrow> store \<Rightarrow> bool \<times> store" where
  "check_columns_loop_st df [] h = (True, h)"
| "check_columns_loop_st df (j # js) h =
     (let total = py_sum (loc_col (h ! df) j)
      in if total < 9999 / 10000 \<or> total > 10001 / 10000 then (False, h)
         else check_columns_loop_st df js h)"

definition check_columns_st :: "ref \<Rightarrow> store \<Rightarrow> bool \<times> store" where
  "check_columns_st df h = check_columns_loop_st df [0..<length (columns (h ! df))] h"

fun titles_loop_st :: "ref list \<Rightarrow> store \<Rightarrow> (error + string list) \<times> store" where
  "titles_loop_st [] h = (Inr [], h)"
| "titles_loop_st (col # cols) h =
     (case columns (h ! col) of
        [] \<Rightarrow> (Inl IndexError, h)
      | title # _ \<Rightarrow>
          (case titles_loop_st cols h of
             (Inl e, h') \<Rightarrow> (Inl e, h')
           | (Inr ts, h') \<Rightarrow> (Inr (title # ts), h')))"

fun gini_loop_st :: "ref list \<Rightarrow> gini_df \<Rightarrow> store \<Rightarrow> (error + gini_df) \<times> store" where
  "gini_loop_st [] g h = (Inr g, h)"
| "gini_loop_st (col # cols) g h =
     (case columns (h ! col) of
        [] \<Rightarrow> (Inl IndexError, h)
      | title # _ \<Rightarrow>
          let gini = calculate_gini (loc_col (h ! col) 0);
              len = length (rows (h ! col))
          in if int len - 1 = 0 then (Inl ZeroDivisionError, h)
             else
               let corrected_gini = fmul gini (of_nat len / (of_nat len - 1))
               in gini_loop_st cols
                    (set_gini_row title \<lparr>Gini = gini, Corrected_Gini = corrected_gini, n_cell = len\<rparr> g) h)"

definition make_gini_file_st :: "ref list \<Rightarrow> store \<Rightarrow> (error + gini_df) \<times> store" where
  "make_gini_file_st samples h =
     (case titles_loop_st samples h of
        (Inl e, h1) \<Rightarrow> (Inl e, h1)
      | (Inr titles, h1) \<Rightarrow> gini_loop_st samples (map (\<lambda>t. (t, None)) titles) h1)"

section \<open>Lemmas\<close>

lemma foldl_plus_shift: "foldl (+) (a :: rat) xs = a + sum_list xs"
  by (induction xs arbitrary: a) (simp_all add: add.assoc)

lemma py_sum_sum_list: "py_sum xs = sum_list xs"
  by (simp add: py_sum_def foldl_plus_shift)

lemma check_columns_loop_iff:
  "check_columns_loop df js \<longleftrightarrow>
     (\<forall>j \<in> set js. 9999 / 10000 \<le> sum_list (loc_col df j) \<and> sum_list (loc_col df j) \<le> 10001 / 10000)"
  by (induction js) (auto simp: Let_def py_sum_sum_list not_less)

section \<open>Validator: acceptance\<close>

text \<open>
  C8. The Validator accepts a table exactly when the sum of every sample column lies in
  the closed interval from 0.9999 to 1.0001.
\<close>

theorem check_columns_accepts_iff:
  "check_columns df \<longleftrightarrow>
     (\<forall>j < length (columns df).
        9999 / 10000 \<le> sum_list (loc_col df j) \<and> sum_list (loc_col df j) \<le> 10001 / 10000)"
  by (auto simp: check_columns_def check_columns_loop_iff)

theorem check_columns_accepts_iff_witness:
  "check_columns table_AB \<and> \<not> check_columns table_half"
  using check_columns_accepts_iff [of table_AB] check_columns_accepts_iff [of table_half]
  by (simp add: table_AB_def table_half_def loc_col_def All_less_Suc)

section \<open>Pruner: the rows that remain\<close>

lemma loc_rows_unique:
  "distinct (map fst rs) \<Longrightarrow> row \<in> set rs \<Longrightarrow> filter (\<lambda>x. fst x = fst row) rs = [row]"
proof (induction rs)
  case Nil
  then show ?case by simp
next
  case (Cons a rs)
  show ?case
  proof (cases "a = row")
    case True
    from Cons.prems(1) True have "fst row \<notin> fst ` set rs" by simp
    then have "filter (\<lambda>x. fst x = fst row) rs = []"
      by (auto simp: filter_empty_conv intro: rev_image_eqI)
    with True show ?thesis by simp
  next
    case False
    with Cons.prems have in_rs: "row \<in> set rs" by simp
    with Cons.prems(1) have "fst a \<noteq> fst row" by force
    with Cons in_rs show ?thesis by simp
  qed
qed

lemma remove_zeros_loop_distinct:
  assumes "distinct (index df)" "distinct ls" "set ls \<subseteq> set (index df)"
  shows "remove_zeros_loop ls df =
     Inr (df\<lparr>rows := filter (\<lambda>row. fst row \<notin> set ls \<or> sum_list (snd row) \<noteq> 0) (rows df)\<rparr>)"
  using assms
proof (induction ls arbitrary: df)
  case Nil
  then show ?case by simp
next
  case (Cons r ls)
  from Cons.prems obtain row where row: "row \<in> set (rows df)" "fst row = r"
    by (auto simp: index_def)
  have sel: "loc_rows df r = [row]"
    using loc_rows_unique [of "rows df" row] Cons.prems(1) row by (simp add: loc_rows_def index_def)
  have uniq: "\<And>x. x \<in> set (rows df) \<Longrightarrow> fst x = r \<Longrightarrow> x = row"
    using Cons.prems(1) row by (metis distinct_map eq_key_imp_eq_value index_def prod.collapse)
  show ?case
  proof (cases "sum_list (snd row) = 0")
    case True
    let ?df = "drop_label r df"
    have d: "distinct (index ?df)"
      using Cons.prems(1) by (simp add: drop_label_def index_def distinct_map_filter)
    have s: "set ls \<subseteq> set (index ?df)"
      using Cons.prems(2,3) by (fastforce simp: drop_label_def index_def)
    have "remove_zeros_loop ls ?df =
        Inr (?df\<lparr>rows := filter (\<lambda>row. fst row \<notin> set ls \<or> sum_list (snd row) \<noteq> 0) (rows ?df)\<rparr>)"
      using Cons.IH [OF d _ s] Cons.prems(2) by simp
    moreover have "filter (\<lambda>row. fst row \<notin> set ls \<or> sum_list (snd row) \<noteq> 0) (rows ?df) =
        filter (\<lambda>row. fst row \<notin> set (r # ls) \<or> sum_list (snd row) \<noteq> 0) (rows df)"
      using uniq True by (auto simp: drop_label_def intro!: filter_cong)
    ultimately show ?thesis
      using sel True by (simp add: py_sum_sum_list drop_label_def)
  next
    case False
    have "remove_zeros_loop ls df =
        Inr (df\<lparr>rows := filter (\<lambda>row. fst row \<notin> set ls \<or> sum_list (snd row) \<noteq> 0) (rows df)\<rparr>)"
      using Cons.IH [of df] Cons.prems by simp
    moreover have "filter (\<lambda>row. fst row \<notin> set ls \<or> sum_list (snd row) \<noteq> 0) (rows df) =
        filter (\<lambda>row. fst row \<notin> set (r # ls) \<or> sum_list (snd row) \<noteq> 0) (rows df)"
      using uniq False by (auto intro!: filter_cong)
    ultimately show ?thesis
      using sel False by (simp add: py_sum_sum_list)
  qed
qed

lemma remove_zeros_distinct:
  assumes "distinct (index df)"
  shows "remove_zeros df = Inr (df\<lparr>rows := filter (\<lambda>row. sum_list (snd row) \<noteq> 0) (rows df)\<rparr>)"
proof -
  have "filter (\<lambda>row. fst row \<notin> set (index df) \<or> sum_list (snd row) \<noteq> 0) (rows df) =
        filter (\<lambda>row. sum_list (snd row) \<noteq> 0) (rows df)"
    by (auto simp: index_def intro!: filter_cong)
  then show ?thesis
    using remove_zeros_loop_distinct [OF assms assms] by (simp add: remove_zeros_def)
qed

text \<open>
  C10. For a table of non-negative values with unique bin identifiers, the Pruner returns
  the table with exactly the all-zero rows deleted: the remaining rows keep their order
  and their values, and the columns are the same.
\<close>

theorem remove_zeros_deletes_zero_rows:
  assumes "distinct (index df)" and "nonneg df"
  shows "remove_zeros df =
     Inr (df\<lparr>rows := filter (\<lambda>row. \<not> list_all (\<lambda>v. v = 0) (snd row)) (rows df)\<rparr>)"
proof -
  have "sum_list (snd row) \<noteq> 0 \<longleftrightarrow> \<not> list_all (\<lambda>v. v = 0) (snd row)" if "row \<in> set (rows df)" for row
  proof -
    from that assms(2) have "\<forall>v \<in> set (snd row). 0 \<le> v"
      by (auto simp: nonneg_def list_all_iff)
    then show ?thesis
      by (simp add: sum_list_nonneg_eq_0_iff list_all_iff)
  qed
  then have "filter (\<lambda>row. sum_list (snd row) \<noteq> 0) (rows df) =
      filter (\<lambda>row. \<not> list_all (\<lambda>v. v = 0) (snd row)) (rows df)"
    by (auto intro!: filter_cong)
  then show ?thesis
    using remove_zeros_distinct [OF assms(1)] by simp
qed


theorem remove_zeros_deletes_zero_rows_witness:
  "remove_zeros table_trunc =
     Inr \<lparr>columns = [''A'', ''B''],
          rows = [(''bin1'', [6/10, 1/2]), (''bin2'', [0, 2/10]), (''bin3'', [4/10, 3/10])]\<rparr>"
  using remove_zeros_deletes_zero_rows [of table_trunc]
  by (simp add: table_trunc_def index_def nonneg_def)

section \<open>Curve Builder: loops and column assignment\<close>

lemma for_each_all_Inr:
  "(\<And>x. x \<in> set xs \<Longrightarrow> f x = Inr (g x)) \<Longrightarrow> for_each f xs = Inr (map g xs)"
  by (induction xs) simp_all

lemma for_each_InrD:
  "for_each f xs = Inr ys \<Longrightarrow> list_all2 (\<lambda>x y. f x = Inr y) xs ys"
  by (induction xs arbitrary: ys) (auto split: sum.splits)

lemma index_of_None_iff: "index_of x xs = None \<longleftrightarrow> x \<notin> set xs"
  by (induction xs) auto

lemma index_of_SomeD: "index_of x xs = Some j \<Longrightarrow> j < length xs \<and> xs ! j = x"
  by (induction xs arbitrary: j) (auto split: if_splits)

lemma index_of_append_new: "x \<notin> set xs \<Longrightarrow> index_of x (xs @ [x]) = Some (length xs)"
  by (induction xs) auto

lemma index_of_Some_cases: "x \<in> set xs \<Longrightarrow> \<exists>j. index_of x xs = Some j"
  using index_of_None_iff [of x xs] by (cases "index_of x xs") auto

lemma rect_iff: "rect df \<longleftrightarrow> (\<forall>row \<in> set (rows df). length (snd row) = length (columns df))"
  by (simp add: rect_def list_all_iff)

lemma columns_set_column:
  "columns (set_column name vals df) =
     (if name \<in> set (columns df) then columns df else columns df @ [name])"
  using index_of_None_iff [of name "columns df"]
  by (auto simp: set_column_def split: option.splits)

lemma index_set_column:
  "length vals = length (rows df) \<Longrightarrow> index (set_column name vals df) = index df"
  by (auto simp: set_column_def index_def split: option.splits intro!: nth_equalityI)

lemma length_rows_set_column:
  "length vals = length (rows df) \<Longrightarrow> length (rows (set_column name vals df)) = length (rows df)"
  by (auto simp: set_column_def split: option.splits)

lemma rect_set_column:
  assumes "rect df" "length vals = length (rows df)"
  shows "rect (set_column name vals df)"
  using assms
  by (auto simp: rect_iff set_column_def split: option.splits dest!: set_zip_leftD)

lemma get_column_set_column:
  assumes "rect df" "length vals = length (rows df)"
  shows "get_column (set_column name vals df) name = Inr vals"
proof (cases "index_of name (columns df)")
  case None
  then have new: "name \<notin> set (columns df)" by (simp add: index_of_None_iff)
  have "loc_col (set_column name vals df) (length (columns df)) = vals"
    using assms None
    by (auto simp: loc_col_def set_column_def rect_iff nth_append intro!: nth_equalityI)
  then show ?thesis
    using None index_of_append_new [OF new]
    by (simp add: get_column_def columns_set_column new)
next
  case (Some j)
  then have j: "j < length (columns df)" "name \<in> set (columns df)"
    using index_of_SomeD [OF Some] by auto
  have "loc_col (set_column name vals df) j = vals"
    using assms Some j
    by (auto simp: loc_col_def set_column_def rect_iff intro!: nth_equalityI)
  then show ?thesis
    using Some j by (simp add: get_column_def columns_set_column)
qed

lemma set_column_new_rows:
  assumes "name \<notin> set (columns df)" "length vals = length (rows df)" "i < length (rows df)"
  shows "rows (set_column name vals df) ! i = (fst (rows df ! i), snd (rows df ! i) @ [vals ! i])"
  using assms index_of_None_iff [of name "columns df"]
  by (auto simp: set_column_def split: option.splits)

lemma cum_rel_abund_loop_upt:
  assumes "columns s \<noteq> []" "m \<le> length (rows s)"
  shows "k \<le> m \<Longrightarrow>
     cum_rel_abund_loop s [k..<m] (map (running (loc_col s 0)) [0..<k]) =
       Inr (map (running (loc_col s 0)) [0..<m])"
proof (induction "m - k" arbitrary: k)
  case 0
  then show ?case by simp
next
  case (Suc d)
  then have k: "k < m" by simp
  let ?a = "loc_col s 0"
  have len: "k < length ?a" using k assms(2) by (simp add: loc_col_def)
  have cell: "snd (rows s ! k) ! 0 = ?a ! k" using len by (simp add: loc_col_def)
  have step: "map (running ?a) [0..<k] @ [running ?a k] = map (running ?a) [0..<Suc k]"
    by simp
  have IH: "cum_rel_abund_loop s [Suc k..<m] (map (running ?a) [0..<Suc k]) =
      Inr (map (running ?a) [0..<m])"
    using Suc.hyps(1) [of "Suc k"] Suc.hyps(2) k by simp
  show ?case
  proof (cases "k = 0")
    case True
    have "running ?a 0 = ?a ! 0"
      using len True by (cases ?a) (simp_all add: running_def)
    then show ?thesis
      using IH k True assms(1) cell by (simp add: upt_conv_Cons)
  next
    case False
    have "running ?a k = ?a ! k + running ?a (k - 1)"
      using len False by (simp add: running_def take_Suc_conv_app_nth)
    moreover have "map (running ?a) [0..<k] ! (k - 1) = running ?a (k - 1)"
      using False by simp
    ultimately show ?thesis
      using IH k False assms(1) cell step by (simp add: upt_conv_Cons del: upt_Suc)
  qed
qed

lemma cum_rel_abund_sample_eq:
  assumes "columns s \<noteq> []"
  shows "cum_rel_abund_sample s =
     Inr (set_column ''Cum Rel Abund'' (map (running (loc_col s 0)) [0..<length (rows s)]) s)"
  using cum_rel_abund_loop_upt [OF assms, of "length (rows s)" 0]
  by (simp add: cum_rel_abund_sample_def)

lemma running_rec:
  assumes "i < length a"
  shows "running a i = (if i = 0 then a ! 0 else a ! i + running a (i - 1))"
proof (cases i)
  case 0
  with assms show ?thesis by (cases a) (simp_all add: running_def)
next
  case (Suc j)
  with assms show ?thesis by (simp add: running_def take_Suc_conv_app_nth)
qed

text \<open>
  C7. For ranked samples (frames with at least the abundance column), the Curve Builder
  gives each sample a column Cum Rel Abund whose first value is the first abundance and
  whose value at every later position is the abundance there plus the previous cumulative
  value; the rows keep their labels, and where the sample had no column of that name the
  column is appended after the existing ones, whose cells stay as they were.
\<close>

theorem cumulative_relative_abundance_recurrence:
  assumes "list_all (\<lambda>s. columns s \<noteq> [] \<and> rect s) samples"
  shows "\<exists>out. calculate_cumulative_relative_abundance samples = Inr out \<and>
           length out = length samples \<and>
           (\<forall>k < length samples.
              index (out ! k) = index (samples ! k) \<and>
              (\<exists>c. get_column (out ! k) ''Cum Rel Abund'' = Inr c \<and>
                   length c = length (rows (samples ! k)) \<and>
                   (\<forall>i < length c.
                      c ! i = (if i = 0 then loc_col (samples ! k) 0 ! 0
                               else loc_col (samples ! k) 0 ! i + c ! (i - 1)))) \<and>
              (''Cum Rel Abund'' \<notin> set (columns (samples ! k)) \<longrightarrow>
                 columns (out ! k) = columns (samples ! k) @ [''Cum Rel Abund''] \<and>
                 (\<forall>i < length (rows (samples ! k)).
                    butlast (snd (rows (out ! k) ! i)) = snd (rows (samples ! k) ! i))))"
proof -
  let ?c = "\<lambda>s. map (running (loc_col s 0)) [0..<length (rows s)]"
  let ?g = "\<lambda>s. set_column ''Cum Rel Abund'' (?c s) s"
  have ok: "columns s \<noteq> [] \<and> rect s" if "s \<in> set samples" for s
    using assms that by (simp add: list_all_iff)
  have out: "calculate_cumulative_relative_abundance samples = Inr (map ?g samples)"
    unfolding calculate_cumulative_relative_abundance_def
    by (rule for_each_all_Inr) (simp add: cum_rel_abund_sample_eq ok)
  have "index (?g s) = index s \<and>
        (\<exists>c. get_column (?g s) ''Cum Rel Abund'' = Inr c \<and> length c = length (rows s) \<and>
             (\<forall>i < length c. c ! i = (if i = 0 then loc_col s 0 ! 0 else loc_col s 0 ! i + c ! (i - 1)))) \<and>
        (''Cum Rel Abund'' \<notin> set (columns s) \<longrightarrow>
           columns (?g s) = columns s @ [''Cum Rel Abund''] \<and>
           (\<forall>i < length (rows s). butlast (snd (rows (?g s) ! i)) = snd (rows s ! i)))"
    if s: "s \<in> set samples" for s
  proof (intro conjI)
    show "index (?g s) = index s"
      by (simp add: index_set_column)
    have "get_column (?g s) ''Cum Rel Abund'' = Inr (?c s)"
      using ok [OF s] by (simp add: get_column_set_column)
    moreover have "length (?c s) = length (rows s)" by simp
    moreover have "\<forall>i < length (?c s).
        ?c s ! i = (if i = 0 then loc_col s 0 ! 0 else loc_col s 0 ! i + ?c s ! (i - 1))"
    proof (intro allI impI)
      fix i assume "i < length (?c s)"
      then have i: "i < length (loc_col s 0)" by (simp add: loc_col_def)
      show "?c s ! i = (if i = 0 then loc_col s 0 ! 0 else loc_col s 0 ! i + ?c s ! (i - 1))"
        using running_rec [OF i] i by (simp add: loc_col_def)
    qed
    ultimately show "\<exists>c. get_column (?g s) ''Cum Rel Abund'' = Inr c \<and> length c = length (rows s) \<and>
        (\<forall>i < length c. c ! i = (if i = 0 then loc_col s 0 ! 0 else loc_col s 0 ! i + c ! (i - 1)))"
      by blast
    show "''Cum Rel Abund'' \<notin> set (columns s) \<longrightarrow>
        columns (?g s) = columns s @ [''Cum Rel Abund''] \<and>
        (\<forall>i < length (rows s). butlast (snd (rows (?g s) ! i)) = snd (rows s ! i))"
      by (simp add: columns_set_column set_column_new_rows)
  qed
  then show ?thesis
    using out by simp
qed

theorem cumulative_relative_abundance_recurrence_witness:
  "calculate_cumulative_relative_abundance table_AB_ranked =
     Inr [\<lparr>columns = [''A'', ''Cum Rel Abund''],
           rows = [(''bin1'', [1/2, 1/2]), (''bin2'', [3/10, 8/10]), (''bin3'', [2/10, 1])]\<rparr>,
          \<lparr>columns = [''B'', ''Cum Rel Abund''],
           rows = [(''bin1'', [34/100, 34/100]), (''bin2'', [33/100, 67/100]), (''bin3'', [33/100, 1])]\<rparr>]"
  using cumulative_relative_abundance_recurrence [of table_AB_ranked]
  by (simp add: table_AB_ranked_def rect_def calculate_cumulative_relative_abundance_def
      cum_rel_abund_sample_def set_column_def)

section \<open>Curve Builder: truncation\<close>

lemma over_one_loop_found:
  assumes "index_of ''Cum Rel Abund'' (columns col) = Some j"
  shows "set ls \<subseteq> set (index nf) \<Longrightarrow> distinct ls \<Longrightarrow>
     over_one_loop col ls True nf =
       Inr (nf\<lparr>rows := filter (\<lambda>row. fst row \<notin> set ls) (rows nf)\<rparr>)"
proof (induction ls arbitrary: nf)
  case Nil
  then show ?case by simp
next
  case (Cons r ls)
  let ?nf = "drop_label r nf"
  have sub: "set ls \<subseteq> set (index ?nf)"
    using Cons.prems by (fastforce simp: drop_label_def index_def)
  have "over_one_loop col ls True ?nf =
      Inr (?nf\<lparr>rows := filter (\<lambda>row. fst row \<notin> set ls) (rows ?nf)\<rparr>)"
    using Cons.IH [OF sub] Cons.prems(2) by simp
  moreover have "filter (\<lambda>row. fst row \<notin> set ls) (rows ?nf) =
      filter (\<lambda>row. fst row \<notin> set (r # ls)) (rows nf)"
    by (auto simp: drop_label_def intro!: filter_cong)
  ultimately show ?case
    using assms Cons.prems(1) by (simp add: drop_label_def)
qed

lemma over_one_loop_scan:
  assumes "index_of ''Cum Rel Abund'' (columns col) = Some j" "distinct (index col)"
  shows "rows col = pre @ suf \<Longrightarrow>
     over_one_loop col (map fst suf) False col = Inr (col\<lparr>rows := pre @ keep_rows j suf\<rparr>)"
proof (induction suf arbitrary: pre)
  case Nil
  then show ?case by (simp add: keep_rows_def)
next
  case (Cons row suf)
  have mem: "row \<in> set (rows col)" using Cons.prems by simp
  have sel: "loc_rows col (fst row) = [row]"
    using loc_rows_unique [of "rows col" row] assms(2) mem by (simp add: loc_rows_def index_def)
  show ?case
  proof (cases "snd row ! j > 999999 / 1000000")
    case True
    have d: "distinct (map fst pre @ fst row # map fst suf)"
      using assms(2) Cons.prems by (simp add: index_def)
    have "over_one_loop col (map fst suf) True col =
        Inr (col\<lparr>rows := filter (\<lambda>row. fst row \<notin> set (map fst suf)) (rows col)\<rparr>)"
      using d Cons.prems by (intro over_one_loop_found [OF assms(1)]) (auto simp: index_def)
    moreover have "filter (\<lambda>x. fst x \<notin> set (map fst suf)) (rows col) = pre @ [row]"
    proof -
      have "filter (\<lambda>x. fst x \<notin> set (map fst suf)) pre = pre"
        using d by (auto simp: filter_id_conv)
      moreover have "filter (\<lambda>x. fst x \<notin> set (map fst suf)) suf = []"
        by (auto simp: filter_empty_conv)
      moreover have "fst row \<notin> set (map fst suf)" using d by auto
      ultimately show ?thesis using Cons.prems by simp
    qed
    ultimately show ?thesis
      using assms(1) sel True by (simp add: keep_rows_def)
  next
    case False
    have "over_one_loop col (map fst suf) False col = Inr (col\<lparr>rows := (pre @ [row]) @ keep_rows j suf\<rparr>)"
      using Cons.IH [of "pre @ [row]"] Cons.prems by simp
    then show ?thesis
      using assms(1) sel False by (simp add: keep_rows_def)
  qed
qed

lemma over_one_sample_eq:
  assumes "index_of ''Cum Rel Abund'' (columns col) = Some j" "distinct (index col)"
  shows "over_one_sample col = Inr (col\<lparr>rows := keep_rows j (rows col)\<rparr>)"
  using over_one_loop_scan [OF assms, of "[]" "rows col"]
  by (simp add: over_one_sample_def index_def)

lemma keep_rows_first:
  assumes "k < length rs" "snd (rs ! k) ! j > 999999 / 1000000"
    and "\<forall>i < k. \<not> snd (rs ! i) ! j > 999999 / 1000000"
  shows "keep_rows j rs = take (Suc k) rs"
proof -
  let ?P = "\<lambda>row. \<not> snd row ! j > 999999 / 1000000"
  have tw: "takeWhile ?P rs = take k rs"
    using assms by (intro takeWhile_eq_take_P_nth) auto
  have "length (takeWhile ?P rs) = k" using tw assms(1) by simp
  then have "dropWhile ?P rs = drop k rs"
    by (metis dropWhile_eq_drop)
  moreover have "drop k rs = rs ! k # drop (Suc k) rs"
    using assms(1) by (simp add: Cons_nth_drop_Suc)
  ultimately have "take 1 (dropWhile ?P rs) = [rs ! k]"
    by simp
  then show ?thesis
    using tw assms(1) by (simp add: keep_rows_def take_Suc_conv_app_nth)
qed

lemma keep_rows_none:
  assumes "\<forall>i < length rs. \<not> snd (rs ! i) ! j > 999999 / 1000000"
  shows "keep_rows j rs = rs"
proof -
  let ?P = "\<lambda>row. \<not> snd row ! j > 999999 / 1000000"
  have all: "\<forall>row \<in> set rs. ?P row"
  proof
    fix row assume "row \<in> set rs"
    then obtain i where "i < length rs" "rs ! i = row"
      by (auto simp only: in_set_conv_nth)
    with assms show "?P row" by blast
  qed
  have t: "takeWhile ?P rs = rs"
    by (rule takeWhile_eq_all_conv [THEN iffD2]) (rule all)
  have d: "dropWhile ?P rs = []"
    by (rule dropWhile_eq_Nil_conv [THEN iffD2]) (rule all)
  show ?thesis
    unfolding keep_rows_def t d by simp
qed

text \<open>
  C5. For samples that have the column Cum Rel Abund (and unique bin identifiers),
  truncation does not fail; it keeps the columns, and in each sample it keeps the rows up
  to and including the first one whose cumulative relative abundance is over 0.999999 and
  drops the rows after it. A sample in which no value is over the threshold is returned as
  it is.
\<close>

theorem truncation_keeps_through_first_over:
  assumes "list_all (\<lambda>s. ''Cum Rel Abund'' \<in> set (columns s) \<and> distinct (index s)) samples"
  shows "\<exists>out. remove_cumulative_abundance_over_one samples = Inr out \<and>
           length out = length samples \<and>
           (\<forall>n < length samples. \<forall>c.
              get_column (samples ! n) ''Cum Rel Abund'' = Inr c \<longrightarrow>
              columns (out ! n) = columns (samples ! n) \<and>
              (\<forall>k < length c.
                 c ! k > 999999 / 1000000 \<and> (\<forall>i < k. \<not> c ! i > 999999 / 1000000) \<longrightarrow>
                 rows (out ! n) = take (Suc k) (rows (samples ! n))) \<and>
              ((\<forall>i < length c. \<not> c ! i > 999999 / 1000000) \<longrightarrow> out ! n = samples ! n))"
proof -
  let ?j = "\<lambda>s. the (index_of ''Cum Rel Abund'' (columns s))"
  let ?g = "\<lambda>s. s\<lparr>rows := keep_rows (?j s) (rows s)\<rparr>"
  have ok: "index_of ''Cum Rel Abund'' (columns s) = Some (?j s) \<and> distinct (index s)"
    if "s \<in> set samples" for s
    using assms that index_of_Some_cases [of "''Cum Rel Abund''" "columns s"]
    by (auto simp: list_all_iff)
  have out: "remove_cumulative_abundance_over_one samples = Inr (map ?g samples)"
    unfolding remove_cumulative_abundance_over_one_def
    by (rule for_each_all_Inr) (use ok in \<open>simp add: over_one_sample_eq\<close>)
  have per: "columns (?g s) = columns s \<and>
       (\<forall>k < length c.
          c ! k > 999999 / 1000000 \<and> (\<forall>i < k. \<not> c ! i > 999999 / 1000000) \<longrightarrow>
          rows (?g s) = take (Suc k) (rows s)) \<and>
       ((\<forall>i < length c. \<not> c ! i > 999999 / 1000000) \<longrightarrow> ?g s = s)"
    if s: "s \<in> set samples" and c: "get_column s ''Cum Rel Abund'' = Inr c" for s c
  proof -
    have c_eq: "c = loc_col s (?j s)"
      using ok [OF s] c by (auto simp: get_column_def split: option.splits)
    then have len: "length c = length (rows s)"
      by (simp add: loc_col_def)
    have nth: "c ! i = snd (rows s ! i) ! ?j s" if "i < length (rows s)" for i
      using that c_eq by (simp add: loc_col_def)
    have "rows (?g s) = take (Suc k) (rows s)"
      if "k < length c" "c ! k > 999999 / 1000000" "\<forall>i < k. \<not> c ! i > 999999 / 1000000" for k
    proof -
      have "keep_rows (?j s) (rows s) = take (Suc k) (rows s)"
        using that len nth by (intro keep_rows_first) auto
      then show ?thesis by simp
    qed
    moreover have "?g s = s" if "\<forall>i < length c. \<not> c ! i > 999999 / 1000000"
    proof -
      have "keep_rows (?j s) (rows s) = rows s"
        using that len nth by (intro keep_rows_none) auto
      then show ?thesis by simp
    qed
    ultimately show ?thesis by simp
  qed
  show ?thesis
    using out per by simp
qed

theorem truncation_keeps_through_first_over_witness:
  "remove_cumulative_abundance_over_one table_trunc_cum =
     Inr [\<lparr>columns = [''A'', ''Cum Rel Abund''],
           rows = [(''bin1'', [6/10, 6/10]), (''bin3'', [4/10, 1])]\<rparr>,
          \<lparr>columns = [''B'', ''Cum Rel Abund''],
           rows = [(''bin1'', [1/2, 1/2]), (''bin3'', [3/10, 8/10]), (''bin2'', [1/10, 9/10])]\<rparr>]"
  using truncation_keeps_through_first_over [of table_trunc_cum]
  by (simp add: table_trunc_cum_def index_def remove_cumulative_abundance_over_one_def
      over_one_sample_def loc_rows_def drop_label_def)

section \<open>Curve Builder: rank proportion\<close>

lemma cum_prop_trfs_loop_eq:
  "cum_prop_trfs_loop s is acc =
     acc @ map (\<lambda>i. of_nat (i + 1) / of_nat (length (rows s))) is"
  by (induction "is" arbitrary: acc) simp_all

lemma cum_prop_trf_sample_eq:
  "cum_prop_trf_sample s =
     set_column ''Cum Prop TRFs''
       (map (\<lambda>i. of_nat (i + 1) / of_nat (length (rows s))) [0..<length (rows s)]) s"
  by (simp add: cum_prop_trf_sample_def cum_prop_trfs_loop_eq)

lemma for_each_Inr_mem:
  "for_each f xs = Inr ys \<Longrightarrow> y \<in> set ys \<Longrightarrow> \<exists>x \<in> set xs. f x = Inr y"
  by (induction xs arbitrary: ys) (auto split: sum.splits)

lemma for_each_Inr_nth:
  "for_each f xs = Inr ys \<Longrightarrow> length ys = length xs \<and> (\<forall>k < length xs. f (xs ! k) = Inr (ys ! k))"
  using for_each_InrD [of f xs ys] by (simp add: list_all2_conv_all_nth)

lemma over_one_loop_frame:
  "over_one_loop col ls found nf = Inr r \<Longrightarrow>
     columns r = columns nf \<and> set (rows r) \<subseteq> set (rows nf)"
proof (induction ls arbitrary: found nf)
  case Nil
  then show ?case by simp
next
  case (Cons l ls)
  from Cons.prems obtain found' nf' where
    rec: "over_one_loop col ls found' nf' = Inr r" and
    nf': "nf' = nf \<or> nf' = drop_label l nf"
    by (auto split: option.splits if_splits list.splits)
  from Cons.IH [OF rec] nf' show ?case
    by (auto simp: drop_label_def)
qed

lemma rect_to_frame: "rect (to_frame name xs)"
  by (auto simp: rect_iff to_frame_def)

lemma sort_bins_frames:
  "s \<in> set (sort_bins sort_values df) \<Longrightarrow> rect s \<and> length (columns s) = 1"
  by (auto simp: sort_bins_def rect_to_frame) (simp add: to_frame_def)

lemma run_InrD:
  assumes "run sort_values df = Inr (samples, g)"
  shows "\<exists>df1 cum truncated.
           check_columns df \<and> remove_zeros df = Inr df1 \<and>
           calculate_cumulative_relative_abundance (sort_bins sort_values df1) = Inr cum \<and>
           remove_cumulative_abundance_over_one cum = Inr truncated \<and>
           samples = calculate_cumulative_prop_trf truncated \<and>
           make_gini_file samples = Inr g"
  using assms by (auto simp: run_def Let_def split: if_splits sum.splits)

lemma cumulative_frames:
  assumes "calculate_cumulative_relative_abundance (sort_bins sort_values df1) = Inr cum"
    and "s \<in> set cum"
  shows "rect s \<and> columns s \<noteq> []"
proof -
  from assms obtain x where x: "x \<in> set (sort_bins sort_values df1)" "cum_rel_abund_sample x = Inr s"
    unfolding calculate_cumulative_relative_abundance_def by (blast dest: for_each_Inr_mem)
  from sort_bins_frames [OF x(1)] have rx: "rect x" "columns x \<noteq> []" by auto
  from x(2) cum_rel_abund_sample_eq [OF rx(2)]
  have "s = set_column ''Cum Rel Abund'' (map (running (loc_col x 0)) [0..<length (rows x)]) x"
    by simp
  then show ?thesis
    using rx by (simp add: rect_set_column columns_set_column)
qed

lemma truncated_frames:
  assumes "remove_cumulative_abundance_over_one cum = Inr truncated"
    and "\<And>s. s \<in> set cum \<Longrightarrow> rect s \<and> columns s \<noteq> []"
    and "s \<in> set truncated"
  shows "rect s \<and> columns s \<noteq> []"
proof -
  from assms(1,3) obtain x where x: "x \<in> set cum" "over_one_sample x = Inr s"
    unfolding remove_cumulative_abundance_over_one_def by (blast dest: for_each_Inr_mem)
  from over_one_loop_frame [of x "index x" False x s] x(2)
  have "columns s = columns x" "set (rows s) \<subseteq> set (rows x)"
    by (simp_all add: over_one_sample_def)
  with assms(2) [OF x(1)] show ?thesis
    by (auto simp: rect_iff)
qed

lemma run_table_trunc:
  "run sort_values_descending table_trunc = Inr (table_trunc_samples, table_trunc_gini)"
  by code_simp

section \<open>Inequality Scorer: the table of coefficients\<close>

lemma titles_loop_eq:
  "list_all (\<lambda>s. columns s \<noteq> []) samples \<Longrightarrow>
     titles_loop samples = Inr (map (\<lambda>s. hd (columns s)) samples)"
  by (induction samples) (auto split: list.splits)

lemma gini_loop_ok:
  "list_all (\<lambda>s. columns s \<noteq> [] \<and> length (rows s) \<noteq> 1) samples \<Longrightarrow>
     gini_loop samples g =
       Inr (fold (\<lambda>s. set_gini_row (hd (columns s)) (gini_cells_of s)) samples g)"
proof (induction samples arbitrary: g)
  case Nil
  then show ?case by simp
next
  case (Cons s samples)
  then obtain title rest where c: "columns s = title # rest"
    by (cases "columns s") auto
  from Cons.prems have "int (length (rows s)) - 1 \<noteq> 0" by auto
  with Cons c show ?case
    by (simp add: Let_def gini_cells_of_def)
qed

lemma gini_loop_one_row:
  "list_all (\<lambda>s. columns s \<noteq> []) samples \<Longrightarrow> list_ex (\<lambda>s. length (rows s) = 1) samples \<Longrightarrow>
     gini_loop samples g = Inl ZeroDivisionError"
proof (induction samples arbitrary: g)
  case Nil
  then show ?case by simp
next
  case (Cons s samples)
  then obtain title rest where c: "columns s = title # rest"
    by (cases "columns s") auto
  show ?case
  proof (cases "length (rows s) = 1")
    case True
    with c show ?thesis by (simp add: Let_def)
  next
    case False
    then have "int (length (rows s)) - 1 \<noteq> 0" by auto
    with Cons c False show ?thesis by (simp add: Let_def)
  qed
qed

lemma fold_set_gini_row:
  "distinct (map (\<lambda>s. hd (columns s)) samples) \<Longrightarrow>
     fold (\<lambda>s. set_gini_row (hd (columns s)) (gini_cells_of s)) samples g =
       map (\<lambda>(t, c). case find (\<lambda>s. hd (columns s) = t) samples of
                        Some s \<Rightarrow> (t, Some (gini_cells_of s))
                      | None \<Rightarrow> (t, c)) g"
proof (induction samples arbitrary: g)
  case Nil
  then show ?case by simp
next
  case (Cons s samples)
  from Cons.prems have "hd (columns s) \<notin> (\<lambda>s. hd (columns s)) ` set samples"
    by simp
  then have none: "find (\<lambda>x. hd (columns x) = hd (columns s)) samples = None"
    unfolding find_None_iff image_iff by metis
  show ?case
    using Cons none by (auto simp: set_gini_row_def split: option.splits)
qed

lemma find_title_self:
  "distinct (map (\<lambda>s. hd (columns s)) samples) \<Longrightarrow> s \<in> set samples \<Longrightarrow>
     find (\<lambda>x. hd (columns x) = hd (columns s)) samples = Some s"
  by (induction samples) (auto simp: rev_image_eqI)

lemma make_gini_file_ok:
  assumes "list_all (\<lambda>s. columns s \<noteq> [] \<and> length (rows s) \<noteq> 1) samples"
    and "distinct (map (\<lambda>s. hd (columns s)) samples)"
  shows "make_gini_file samples = Inr (map (\<lambda>s. (hd (columns s), Some (gini_cells_of s))) samples)"
proof -
  have t: "titles_loop samples = Inr (map (\<lambda>s. hd (columns s)) samples)"
    using assms(1) by (intro titles_loop_eq) (simp add: list_all_iff)
  show ?thesis
    using assms(2)
    by (simp add: make_gini_file_def t gini_loop_ok [OF assms(1)] fold_set_gini_row
        find_title_self comp_def)
qed

lemma make_gini_file_Inr_rows:
  assumes "make_gini_file samples = Inr g"
  shows "list_all (\<lambda>s. columns s \<noteq> [] \<and> length (rows s) \<noteq> 1) samples"
proof -
  have "gini_loop samples g0 = Inr g \<Longrightarrow> ?thesis" for g0
    by (induction samples arbitrary: g0) (auto simp: Let_def split: list.splits if_splits)
  with assms show ?thesis
    by (auto simp: make_gini_file_def split: sum.splits)
qed

lemma remove_zeros_loop_columns:
  "remove_zeros_loop ls df = Inr r \<Longrightarrow> columns r = columns df"
proof (induction ls arbitrary: df)
  case Nil
  then show ?case by simp
next
  case (Cons l ls)
  from Cons.prems obtain df' where
    rec: "remove_zeros_loop ls df' = Inr r" and df': "df' = df \<or> df' = drop_label l df"
    by (auto split: list.splits if_splits)
  from Cons.IH [OF rec] df' show ?case
    by (auto simp: drop_label_def)
qed

lemma hd_columns_set_column:
  "columns df \<noteq> [] \<Longrightarrow> hd (columns (set_column name vals df)) = hd (columns df)"
  by (simp add: columns_set_column)

lemma length_rows_index: "length (rows df) = length (index df)"
  by (simp add: index_def)

lemma run_stagesD:
  assumes "run sort_values df = Inr (samples, g)"
  shows "\<exists>df1 cum truncated.
           remove_zeros df = Inr df1 \<and>
           calculate_cumulative_relative_abundance (sort_bins sort_values df1) = Inr cum \<and>
           remove_cumulative_abundance_over_one cum = Inr truncated \<and>
           make_gini_file samples = Inr g \<and>
           length truncated = length (columns df) \<and>
           length samples = length (columns df) \<and>
           (\<forall>k < length (columns df).
              hd (columns (samples ! k)) = columns df ! k \<and>
              index (samples ! k) = index (truncated ! k))"
proof -
  from run_InrD [OF assms] obtain df1 cum truncated where
    st: "remove_zeros df = Inr df1"
      "calculate_cumulative_relative_abundance (sort_bins sort_values df1) = Inr cum"
      "remove_cumulative_abundance_over_one cum = Inr truncated"
      "samples = calculate_cumulative_prop_trf truncated"
      "make_gini_file samples = Inr g"
    by blast
  let ?n = "length (columns df)"
  let ?ranked = "sort_bins sort_values df1"
  have cols: "columns df1 = columns df"
    using st(1) by (simp add: remove_zeros_def remove_zeros_loop_columns)
  have lr: "length ?ranked = ?n"
    by (simp add: sort_bins_def cols)
  from for_each_Inr_nth [OF st(2) [unfolded calculate_cumulative_relative_abundance_def]] lr
  have c: "length cum = ?n" "\<And>k. k < ?n \<Longrightarrow> cum_rel_abund_sample (?ranked ! k) = Inr (cum ! k)"
    by auto
  from for_each_Inr_nth [OF st(3) [unfolded remove_cumulative_abundance_over_one_def]] c(1)
  have t: "length truncated = ?n" "\<And>k. k < ?n \<Longrightarrow> over_one_sample (cum ! k) = Inr (truncated ! k)"
    by auto
  have "hd (columns (samples ! k)) = columns df ! k \<and> index (samples ! k) = index (truncated ! k)"
    if k: "k < ?n" for k
  proof -
    have r: "columns (?ranked ! k) = [columns df ! k]"
      using k by (simp add: sort_bins_def cols to_frame_def)
    then have "cum ! k = set_column ''Cum Rel Abund''
        (map (running (loc_col (?ranked ! k) 0)) [0..<length (rows (?ranked ! k))]) (?ranked ! k)"
      using c(2) [OF k] cum_rel_abund_sample_eq [of "?ranked ! k"] by simp
    then have ck: "columns (cum ! k) \<noteq> []" "hd (columns (cum ! k)) = columns df ! k"
      using r by (simp_all add: columns_set_column)
    have "columns (truncated ! k) = columns (cum ! k)"
      using over_one_loop_frame [of "cum ! k" "index (cum ! k)" False "cum ! k" "truncated ! k"] t(2) [OF k]
      by (simp add: over_one_sample_def)
    then have tk: "columns (truncated ! k) \<noteq> []" "hd (columns (truncated ! k)) = columns df ! k"
      using ck by simp_all
    have "samples ! k = cum_prop_trf_sample (truncated ! k)"
      using k t(1) st(4) by (simp add: calculate_cumulative_prop_trf_def)
    then show ?thesis
      using tk by (simp add: cum_prop_trf_sample_eq hd_columns_set_column index_set_column)
  qed
  moreover have "length samples = ?n"
    using st(4) t(1) by (simp add: calculate_cumulative_prop_trf_def)
  ultimately show ?thesis
    using st(1,2,3,5) t(1) by blast
qed

text \<open>
  C1 as stated fails: in the example sample A keeps two of its three bins; the reported
  coefficient is 0.1 with n = 2, while the untruncated ranked abundances 0.6, 0.4, 0 have
  the coefficient 0.4 and n = 3.
\<close>

theorem gini_untruncated_counterexample:
  "run sort_values_descending table_trunc = Inr (table_trunc_samples, table_trunc_gini) \<and>
   table_trunc_gini ! 0 =
     (''A'', Some \<lparr>Gini = Fin (1/10), Corrected_Gini = Fin (1/5), n_cell = 2\<rparr>) \<and>
   remove_zeros table_trunc = Inr table_trunc_pruned \<and>
   loc_col (sort_bins sort_values_descending table_trunc_pruned ! 0) 0 = [6/10, 4/10, 0] \<and>
   calculate_gini [6/10, 4/10, 0] = Fin (2/5) \<and>
   length (rows (sort_bins sort_values_descending table_trunc_pruned ! 0)) = 3"
proof (intro conjI)
  show "run sort_values_descending table_trunc = Inr (table_trunc_samples, table_trunc_gini)"
    by code_simp
  show "table_trunc_gini ! 0 =
      (''A'', Some \<lparr>Gini = Fin (1/10), Corrected_Gini = Fin (1/5), n_cell = 2\<rparr>)"
    by (simp add: table_trunc_gini_def)
  show "remove_zeros table_trunc = Inr table_trunc_pruned"
    by code_simp
  show "loc_col (sort_bins sort_values_descending table_trunc_pruned ! 0) 0 = [6/10, 4/10, 0]"
    by code_simp
  show "calculate_gini [6/10, 4/10, 0] = Fin (2/5)"
    by code_simp
  show "length (rows (sort_bins sort_values_descending table_trunc_pruned ! 0)) = 3"
    by code_simp
qed

text \<open>
  C2, as the program has it. A sample with one row makes the scorer raise
  ZeroDivisionError, and no table of coefficients is produced. Without such a sample (and
  with unique sample names) the scorer returns a row for every sample; a sample with no
  rows gets NaN for both coefficients and n = 0, and the other samples are scored.
\<close>

theorem scorer_degenerate_samples:
  assumes "list_all (\<lambda>s. columns s \<noteq> []) samples"
  shows "(list_ex (\<lambda>s. length (rows s) = 1) samples \<longrightarrow>
            make_gini_file samples = Inl ZeroDivisionError) \<and>
         (\<not> list_ex (\<lambda>s. length (rows s) = 1) samples \<and>
          distinct (map (\<lambda>s. hd (columns s)) samples) \<longrightarrow>
            (\<exists>g. make_gini_file samples = Inr g \<and> length g = length samples \<and>
                 (\<forall>k < length samples.
                    g ! k = (hd (columns (samples ! k)), Some (gini_cells_of (samples ! k))) \<and>
                    (rows (samples ! k) = [] \<longrightarrow>
                       gini_cells_of (samples ! k) =
                         \<lparr>Gini = NaN, Corrected_Gini = NaN, n_cell = 0\<rparr>))))"
proof (intro conjI impI)
  assume one: "list_ex (\<lambda>s. length (rows s) = 1) samples"
  have "titles_loop samples = Inr (map (\<lambda>s. hd (columns s)) samples)"
    using assms by (rule titles_loop_eq)
  then show "make_gini_file samples = Inl ZeroDivisionError"
    using gini_loop_one_row [OF assms one] by (simp add: make_gini_file_def)
next
  assume a: "\<not> list_ex (\<lambda>s. length (rows s) = 1) samples \<and>
      distinct (map (\<lambda>s. hd (columns s)) samples)"
  with assms have ok: "list_all (\<lambda>s. columns s \<noteq> [] \<and> length (rows s) \<noteq> 1) samples"
    by (auto simp: list_all_iff list_ex_iff)
  have g: "make_gini_file samples =
      Inr (map (\<lambda>s. (hd (columns s), Some (gini_cells_of s))) samples)"
    using make_gini_file_ok [OF ok] a by simp
  have "gini_cells_of s = \<lparr>Gini = NaN, Corrected_Gini = NaN, n_cell = 0\<rparr>" if "rows s = []" for s
    using that by (simp add: gini_cells_of_def loc_col_def calculate_gini_def)
  then show "\<exists>g. make_gini_file samples = Inr g \<and> length g = length samples \<and>
      (\<forall>k < length samples.
         g ! k = (hd (columns (samples ! k)), Some (gini_cells_of (samples ! k))) \<and>
         (rows (samples ! k) = [] \<longrightarrow>
            gini_cells_of (samples ! k) = \<lparr>Gini = NaN, Corrected_Gini = NaN, n_cell = 0\<rparr>))"
    using g by simp
qed

theorem scorer_degenerate_samples_witness:
  "make_gini_file empty_sample_first =
     Inr [(''A'', Some \<lparr>Gini = NaN, Corrected_Gini = NaN, n_cell = 0\<rparr>),
          (''B'', Some \<lparr>Gini = Fin (1/10), Corrected_Gini = Fin (1/5), n_cell = 2\<rparr>)]"
  using scorer_degenerate_samples [of empty_sample_first]
  by (simp add: empty_sample_first_def make_gini_file_def Let_def set_gini_row_def
      calculate_gini_def loc_col_def py_sum_def)

text \<open>
  C2 as stated fails: a sample with a single retained bin ends the scorer, and the run,
  with ZeroDivisionError.
\<close>

theorem scorer_one_bin_counterexample:
  "run sort_values_descending table_one = Inl ZeroDivisionError \<and>
   make_gini_file table_one_samples = Inl ZeroDivisionError"
proof (intro conjI)
  show "run sort_values_descending table_one = Inl ZeroDivisionError"
    by code_simp
  show "make_gini_file table_one_samples = Inl ZeroDivisionError"
    by code_simp
qed

section \<open>Ranker: the order of the bins\<close>

lemma series_of_to_frame: "series_of (to_frame name xs) = xs"
  by (simp add: series_of_def to_frame_def comp_def case_prod_beta)

lemma sort_values_descending_mset: "mset (sort_values_descending xs) = mset xs"
  by (simp add: sort_values_descending_def)

lemma sort_values_descending_sorted:
  "sorted_wrt (\<lambda>a b. a \<ge> b) (map snd (sort_values_descending xs))"
proof -
  have "sorted (map (\<lambda>p. - snd p) (sort_key (\<lambda>p. - snd p) xs))"
    by (rule sorted_sort_key)
  then have "sorted_wrt (\<lambda>a b. - snd a \<le> - snd b) (sort_key (\<lambda>p. - snd p) xs)"
    by (simp add: sorted_map)
  then show ?thesis
    by (simp add: sort_values_descending_def sorted_wrt_map)
qed

lemma sort_values_descending_stable:
  "filter (\<lambda>p. snd p = v) (sort_values_descending xs) = filter (\<lambda>p. snd p = v) xs"
proof -
  have "filter (\<lambda>p. - snd p = - v) (sort_key (\<lambda>p. - snd p) xs) = filter (\<lambda>p. - snd p = - v) xs"
    by (rule sort_key_stable)
  then show ?thesis
    by (simp add: sort_values_descending_def)
qed

text \<open>
  C3. For every abundance table the Ranker, with the stable descending sort, produces one
  frame per sample column, named after it, that holds every bin once with its abundance
  in that sample, in non-increasing order of abundance; the bins of any one abundance
  value stand in the order of the rows of the table.
\<close>

theorem sort_bins_descending_stable:
  "length (sort_bins sort_values_descending df) = length (columns df) \<and>
   (\<forall>j < length (columns df).
      columns (sort_bins sort_values_descending df ! j) = [columns df ! j] \<and>
      mset (series_of (sort_bins sort_values_descending df ! j)) = mset (loc_series df j) \<and>
      sorted_wrt (\<lambda>a b. a \<ge> b) (loc_col (sort_bins sort_values_descending df ! j) 0) \<and>
      (\<forall>v. filter (\<lambda>p. snd p = v) (series_of (sort_bins sort_values_descending df ! j)) =
           filter (\<lambda>p. snd p = v) (loc_series df j)))"
proof (intro conjI allI impI)
  show "length (sort_bins sort_values_descending df) = length (columns df)"
    by (simp add: sort_bins_def)
next
  fix j assume j: "j < length (columns df)"
  let ?xs = "sort_values_descending (loc_series df j)"
  have s: "sort_bins sort_values_descending df ! j = to_frame (columns df ! j) ?xs"
    using j by (simp add: sort_bins_def)
  show "columns (sort_bins sort_values_descending df ! j) = [columns df ! j]"
    by (simp add: s to_frame_def)
  show "mset (series_of (sort_bins sort_values_descending df ! j)) = mset (loc_series df j)"
    by (simp add: s series_of_to_frame sort_values_descending_mset)
  have "loc_col (to_frame (columns df ! j) ?xs) 0 = map snd ?xs"
    by (simp add: loc_col_def to_frame_def comp_def case_prod_beta)
  then show "sorted_wrt (\<lambda>a b. a \<ge> b) (loc_col (sort_bins sort_values_descending df ! j) 0)"
    by (simp add: s sort_values_descending_sorted)
  show "filter (\<lambda>p. snd p = v) (series_of (sort_bins sort_values_descending df ! j)) =
      filter (\<lambda>p. snd p = v) (loc_series df j)" for v
    by (simp add: s series_of_to_frame sort_values_descending_stable)
qed

theorem sort_bins_descending_stable_witness:
  "length (sort_bins sort_values_descending table_AB) = 2 \<and>
   series_of (sort_bins sort_values_descending table_AB ! 0) =
     [(''bin1'', 1/2), (''bin2'', 3/10), (''bin3'', 2/10)] \<and>
   series_of (sort_bins sort_values_descending table_AB ! 1) =
     [(''bin1'', 34/100), (''bin2'', 33/100), (''bin3'', 33/100)] \<and>
   filter (\<lambda>p. snd p = 33/100) (series_of (sort_bins sort_values_descending table_AB ! 1)) =
     filter (\<lambda>p. snd p = 33/100) (loc_series table_AB 1)"
proof -
  have j: "(1::nat) < length (columns table_AB)"
    by (simp add: table_AB_def)
  from sort_bins_descending_stable [of table_AB] j
  have "filter (\<lambda>p. snd p = 33/100) (series_of (sort_bins sort_values_descending table_AB ! 1)) =
      filter (\<lambda>p. snd p = 33/100) (loc_series table_AB 1)"
    by blast
  moreover have "length (sort_bins sort_values_descending table_AB) = 2"
    by code_simp
  moreover have "series_of (sort_bins sort_values_descending table_AB ! 0) =
      [(''bin1'', 1/2), (''bin2'', 3/10), (''bin3'', 2/10)]"
    by code_simp
  moreover have "series_of (sort_bins sort_values_descending table_AB ! 1) =
      [(''bin1'', 34/100), (''bin2'', 33/100), (''bin3'', 33/100)]"
    by code_simp
  ultimately show ?thesis by blast
qed

section \<open>The store: what each stage changes\<close>

lemma frame_of_simps [simp]:
  "frame_of (Inl e) = Inl e" "frame_of (Inr (r, h)) = Inr (h ! r)"
  by (simp_all add: frame_of_def)

lemma frames_of_simps [simp]:
  "frames_of (Inl e) = Inl e" "frames_of (Inr (rs, h)) = Inr (map (\<lambda>r. h ! r) rs)"
  by (simp_all add: frames_of_def)

lemma remove_zeros_loop_st_value:
  "frame_of (remove_zeros_loop_st ls df h) = remove_zeros_loop ls (h ! df)"
proof (induction ls arbitrary: df h)
  case Nil
  then show ?case by simp
next
  case (Cons l ls)
  have new: "frame_of (remove_zeros_loop_st ls (length h) (h @ [f])) =
      remove_zeros_loop ls f" for f
    using Cons.IH [of "length h" "h @ [f]"] by simp
  show ?case
    by (simp add: new_frame_def new Cons.IH split: list.splits)
qed

lemma remove_zeros_loop_st_frame:
  "remove_zeros_loop_st ls df h = Inr (df', h') \<Longrightarrow>
     take (length h) h' = h \<and> length h \<le> length h' \<and> (df < length h \<longrightarrow> df' < length h')"
proof (induction ls arbitrary: df h)
  case Nil
  then show ?case by simp
next
  case (Cons l ls)
  from Cons.prems consider
      (same) "remove_zeros_loop_st ls df h = Inr (df', h')"
    | (new) f where "remove_zeros_loop_st ls (length h) (h @ [f]) = Inr (df', h')"
    by (auto simp: new_frame_def split: list.splits if_splits)
  then show ?case
  proof cases
    case same
    from Cons.IH [OF same] show ?thesis .
  next
    case new
    from Cons.IH [OF new] have "take (Suc (length h)) h' = h @ [f]" "Suc (length h) \<le> length h'"
      "df' < length h'"
      by simp_all
    then have "take (length h) (take (Suc (length h)) h') = h"
      by simp
    then have "take (length h) h' = h"
      by (simp add: min_def)
    with \<open>Suc (length h) \<le> length h'\<close> \<open>df' < length h'\<close> show ?thesis by simp
  qed
qed

lemma over_one_loop_st_value:
  "col < length h \<Longrightarrow>
     frame_of (over_one_loop_st col ls found nf h) =
       over_one_loop (h ! col) ls found (h ! nf)"
proof (induction ls arbitrary: found nf h)
  case Nil
  then show ?case by simp
next
  case (Cons l ls)
  have new: "frame_of (over_one_loop_st col ls True (length h) (h @ [f])) =
      over_one_loop (h ! col) ls True f" for f
    using Cons.IH [of "h @ [f]" True "length h"] Cons.prems by (simp add: nth_append)
  show ?case
    using Cons.prems
    by (simp add: new_frame_def new Cons.IH split: list.splits option.splits)
qed

lemma over_one_loop_st_frame:
  "over_one_loop_st col ls found nf h = Inr (nf', h') \<Longrightarrow>
     take (length h) h' = h \<and> length h \<le> length h' \<and>
     (nf < length h \<longrightarrow> nf' < length h') \<and> (nf' = nf \<or> length h \<le> nf')"
proof (induction ls arbitrary: found nf h)
  case Nil
  then show ?case by simp
next
  case (Cons l ls)
  from Cons.prems consider
      (same) found' where "over_one_loop_st col ls found' nf h = Inr (nf', h')"
    | (new) f where "over_one_loop_st col ls True (length h) (h @ [f]) = Inr (nf', h')"
    by (auto simp: new_frame_def split: list.splits if_splits option.splits)
  then show ?case
  proof cases
    case same
    from Cons.IH [OF same] show ?thesis .
  next
    case new
    from Cons.IH [OF new] have *: "take (Suc (length h)) h' = h @ [f]" "Suc (length h) \<le> length h'"
      "nf' < length h'" "nf' = length h \<or> Suc (length h) \<le> nf'"
      by simp_all
    then have "take (length h) (take (Suc (length h)) h') = h"
      by simp
    then have "take (length h) h' = h"
      by (simp add: min_def)
    with * show ?thesis by auto
  qed
qed

lemma take_prefix_nth: "take (length h) h' = h \<Longrightarrow> q < length h \<Longrightarrow> h' ! q = h ! q"
  by (metis nth_take)

lemma for_each_st_refines:
  assumes val: "\<And>r h. r < length h \<Longrightarrow> frame_of (body r h) = f (h ! r)"
    and fr: "\<And>r h r' h'. r < length h \<Longrightarrow> body r h = Inr (r', h') \<Longrightarrow>
        length h \<le> length h' \<and> r' < length h' \<and> (r' = r \<or> length h \<le> r') \<and>
        (\<forall>q < length h. q \<noteq> r \<longrightarrow> h' ! q = h ! q)"
  shows "distinct rs \<Longrightarrow> \<forall>r \<in> set rs. r < length h \<Longrightarrow>
     frames_of (for_each_st body rs h) = for_each f (map (\<lambda>r. h ! r) rs) \<and>
     (\<forall>out h'. for_each_st body rs h = Inr (out, h') \<longrightarrow>
        distinct out \<and> length out = length rs \<and> length h \<le> length h' \<and>
        (\<forall>r \<in> set out. r < length h' \<and> (r \<in> set rs \<or> length h \<le> r)) \<and>
        (\<forall>q < length h. q \<notin> set rs \<longrightarrow> h' ! q = h ! q))"
proof (induction rs arbitrary: h)
  case Nil
  then show ?case by simp
next
  case (Cons r rs)
  have r: "r < length h" "r \<notin> set rs" "distinct rs" "\<forall>x \<in> set rs. x < length h"
    using Cons.prems by simp_all
  show ?case
  proof (cases "body r h")
    case (Inl e)
    with val [OF r(1)] have "f (h ! r) = Inl e" by simp
    with Inl show ?thesis by simp
  next
    case (Inr p)
    obtain r' h1 where p: "p = (r', h1)" by (cases p)
    from val [OF r(1)] Inr p have fv: "f (h ! r) = Inr (h1 ! r')" by simp
    from fr [OF r(1)] Inr p have
      f1: "length h \<le> length h1" "r' < length h1" "r' = r \<or> length h \<le> r'"
        "\<And>q. q < length h \<Longrightarrow> q \<noteq> r \<Longrightarrow> h1 ! q = h ! q"
      by auto
    have same: "map (\<lambda>x. h1 ! x) rs = map (\<lambda>x. h ! x) rs"
      using r f1(4) by auto
    have valid: "\<forall>x \<in> set rs. x < length h1"
      using r(4) f1(1) by auto
    have r'_out: "r' \<notin> set rs"
      using f1(3) r(2,4) by auto
    note IH = Cons.IH [OF r(3) valid, unfolded same]
    show ?thesis
    proof (cases "for_each_st body rs h1")
      case (Inl e)
      with IH have "for_each f (map (\<lambda>x. h ! x) rs) = Inl e" by simp
      with Inl Inr p fv show ?thesis by simp
    next
      case rest: (Inr q)
      obtain out h2 where q: "q = (out, h2)" by (cases q)
      from IH rest q have
        i1: "for_each f (map (\<lambda>x. h ! x) rs) = Inr (map (\<lambda>x. h2 ! x) out)" and
        i2: "distinct out" "length out = length rs" "length h1 \<le> length h2"
          "\<forall>x \<in> set out. x < length h2 \<and> (x \<in> set rs \<or> length h1 \<le> x)" and
        i3: "\<And>x. x < length h1 \<Longrightarrow> x \<notin> set rs \<Longrightarrow> h2 ! x = h1 ! x"
        by auto
      have res: "for_each_st body (r # rs) h = Inr (r' # out, h2)"
        using Inr p rest q by simp
      have keep: "h2 ! r' = h1 ! r'"
        using i3 [OF f1(2) r'_out] .
      have "r' \<notin> set out"
      proof
        assume "r' \<in> set out"
        with i2(4) have "r' \<in> set rs \<or> length h1 \<le> r'" by blast
        with r'_out f1(2) show False by simp
      qed
      moreover have "\<forall>x \<in> set (r' # out). x < length h2 \<and> (x \<in> set (r # rs) \<or> length h \<le> x)"
        using i2(3,4) f1 by auto
      moreover have "\<forall>x < length h. x \<notin> set (r # rs) \<longrightarrow> h2 ! x = h ! x"
        using i3 f1(1,4) by auto
      ultimately show ?thesis
        unfolding res using fv i1 i2 f1(1) keep by simp
    qed
  qed
qed

lemma sort_bins_loop_st_eq:
  "df < length h \<Longrightarrow>
     sort_bins_loop_st sort_values df js h =
       ([length h..<length h + length js],
        h @ map (\<lambda>j. to_frame (columns (h ! df) ! j) (sort_values (loc_series (h ! df) j))) js)"
proof (induction js arbitrary: h)
  case Nil
  then show ?case by simp
next
  case (Cons j js)
  let ?f = "to_frame (columns (h ! df) ! j) (sort_values (loc_series (h ! df) j))"
  have "sort_bins_loop_st sort_values df js (h @ [?f]) =
      ([Suc (length h)..<Suc (length h) + length js],
       (h @ [?f]) @ map (\<lambda>j. to_frame (columns (h ! df) ! j) (sort_values (loc_series (h ! df) j))) js)"
    using Cons.IH [of "h @ [?f]"] Cons.prems by (simp add: nth_append del: upt_Suc)
  moreover have "[length h..<length h + length (j # js)] =
      length h # [Suc (length h)..<Suc (length h) + length js]"
    by (simp add: upt_conv_Cons del: upt_Suc)
  ultimately show ?case
    by (simp add: new_frame_def del: upt_Suc)
qed

lemma sort_bins_st_eq:
  "df < length h \<Longrightarrow>
     sort_bins_st sort_values df h =
       ([length h..<length h + length (columns (h ! df))], h @ sort_bins sort_values (h ! df))"
  by (simp add: sort_bins_st_def sort_bins_loop_st_eq sort_bins_def)

lemma cum_rel_abund_sample_st_value:
  "r < length h \<Longrightarrow> frame_of (cum_rel_abund_sample_st r h) = cum_rel_abund_sample (h ! r)"
  by (simp add: cum_rel_abund_sample_st_def cum_rel_abund_sample_def split: sum.splits)

lemma cum_rel_abund_sample_st_frame:
  "cum_rel_abund_sample_st r h = Inr (r', h') \<Longrightarrow>
     r' = r \<and> length h' = length h \<and> (\<forall>q. q \<noteq> r \<longrightarrow> h' ! q = h ! q)"
  by (auto simp: cum_rel_abund_sample_st_def split: sum.splits)

lemma cum_prop_trf_sample_st_value:
  "r < length h \<Longrightarrow> frame_of (cum_prop_trf_sample_st r h) = Inr (cum_prop_trf_sample (h ! r))"
  by (simp add: cum_prop_trf_sample_st_def cum_prop_trf_sample_def)

lemma cum_prop_trf_sample_st_frame:
  "cum_prop_trf_sample_st r h = Inr (r', h') \<Longrightarrow>
     r' = r \<and> length h' = length h \<and> (\<forall>q. q \<noteq> r \<longrightarrow> h' ! q = h ! q)"
  by (auto simp: cum_prop_trf_sample_st_def)

lemma over_one_sample_st_value:
  "r < length h \<Longrightarrow> frame_of (over_one_sample_st r h) = over_one_sample (h ! r)"
  by (simp add: over_one_sample_st_def over_one_sample_def over_one_loop_st_value)

lemma over_one_sample_st_frame:
  assumes "over_one_sample_st r h = Inr (r', h')"
  shows "take (length h) h' = h \<and> length h \<le> length h' \<and>
         (r < length h \<longrightarrow> r' < length h') \<and> (r' = r \<or> length h \<le> r')"
  using over_one_loop_st_frame [OF assms [unfolded over_one_sample_st_def]] .

lemma for_each_pure: "for_each (\<lambda>x. Inr (g x)) xs = Inr (map g xs)"
  by (induction xs) simp_all

lemma cum_rel_abund_st_refines:
  assumes "distinct rs" "\<forall>r \<in> set rs. r < length h"
  shows "frames_of (calculate_cumulative_relative_abundance_st rs h) =
           calculate_cumulative_relative_abundance (map (\<lambda>r. h ! r) rs) \<and>
         (\<forall>out h'. calculate_cumulative_relative_abundance_st rs h = Inr (out, h') \<longrightarrow>
            distinct out \<and> (\<forall>r \<in> set out. r < length h'))"
proof -
  have "frames_of (for_each_st cum_rel_abund_sample_st rs h) =
          for_each cum_rel_abund_sample (map (\<lambda>r. h ! r) rs) \<and>
        (\<forall>out h'. for_each_st cum_rel_abund_sample_st rs h = Inr (out, h') \<longrightarrow>
           distinct out \<and> length out = length rs \<and> length h \<le> length h' \<and>
           (\<forall>r \<in> set out. r < length h' \<and> (r \<in> set rs \<or> length h \<le> r)) \<and>
           (\<forall>q < length h. q \<notin> set rs \<longrightarrow> h' ! q = h ! q))"
    using assms
  proof (rule for_each_st_refines [rotated 2])
    show "frame_of (cum_rel_abund_sample_st r h) = cum_rel_abund_sample (h ! r)"
      if "r < length h" for r h
      using that by (rule cum_rel_abund_sample_st_value)
    show "length h \<le> length h' \<and> r' < length h' \<and> (r' = r \<or> length h \<le> r') \<and>
        (\<forall>q < length h. q \<noteq> r \<longrightarrow> h' ! q = h ! q)"
      if "r < length h" "cum_rel_abund_sample_st r h = Inr (r', h')" for r h r' h'
      using cum_rel_abund_sample_st_frame [OF that(2)] that(1) by simp
  qed
  then show ?thesis
    by (simp add: calculate_cumulative_relative_abundance_st_def
        calculate_cumulative_relative_abundance_def)
qed

lemma over_one_st_refines:
  assumes "distinct rs" "\<forall>r \<in> set rs. r < length h"
  shows "frames_of (remove_cumulative_abundance_over_one_st rs h) =
           remove_cumulative_abundance_over_one (map (\<lambda>r. h ! r) rs) \<and>
         (\<forall>out h'. remove_cumulative_abundance_over_one_st rs h = Inr (out, h') \<longrightarrow>
            distinct out \<and> (\<forall>r \<in> set out. r < length h'))"
proof -
  have "frames_of (for_each_st over_one_sample_st rs h) =
          for_each over_one_sample (map (\<lambda>r. h ! r) rs) \<and>
        (\<forall>out h'. for_each_st over_one_sample_st rs h = Inr (out, h') \<longrightarrow>
           distinct out \<and> length out = length rs \<and> length h \<le> length h' \<and>
           (\<forall>r \<in> set out. r < length h' \<and> (r \<in> set rs \<or> length h \<le> r)) \<and>
           (\<forall>q < length h. q \<notin> set rs \<longrightarrow> h' ! q = h ! q))"
    using assms
  proof (rule for_each_st_refines [rotated 2])
    show "frame_of (over_one_sample_st r h) = over_one_sample (h ! r)"
      if "r < length h" for r h
      using that by (rule over_one_sample_st_value)
    show "length h \<le> length h' \<and> r' < length h' \<and> (r' = r \<or> length h \<le> r') \<and>
        (\<forall>q < length h. q \<noteq> r \<longrightarrow> h' ! q = h ! q)"
      if "r < length h" "over_one_sample_st r h = Inr (r', h')" for r h r' h'
      using over_one_sample_st_frame [OF that(2)] that(1) by (auto simp: take_prefix_nth)
  qed
  then show ?thesis
    by (simp add: remove_cumulative_abundance_over_one_st_def
        remove_cumulative_abundance_over_one_def)
qed

lemma cum_prop_trf_st_refines:
  assumes "distinct rs" "\<forall>r \<in> set rs. r < length h"
  shows "frames_of (calculate_cumulative_prop_trf_st rs h) =
           Inr (calculate_cumulative_prop_trf (map (\<lambda>r. h ! r) rs))"
proof -
  have "frames_of (for_each_st cum_prop_trf_sample_st rs h) =
          for_each (\<lambda>s. Inr (cum_prop_trf_sample s)) (map (\<lambda>r. h ! r) rs) \<and>
        (\<forall>out h'. for_each_st cum_prop_trf_sample_st rs h = Inr (out, h') \<longrightarrow>
           distinct out \<and> length out = length rs \<and> length h \<le> length h' \<and>
           (\<forall>r \<in> set out. r < length h' \<and> (r \<in> set rs \<or> length h \<le> r)) \<and>
           (\<forall>q < length h. q \<notin> set rs \<longrightarrow> h' ! q = h ! q))"
    using assms
  proof (rule for_each_st_refines [rotated 2])
    show "frame_of (cum_prop_trf_sample_st r h) = Inr (cum_prop_trf_sample (h ! r))"
      if "r < length h" for r h
      using that by (rule cum_prop_trf_sample_st_value)
    show "length h \<le> length h' \<and> r' < length h' \<and> (r' = r \<or> length h \<le> r') \<and>
        (\<forall>q < length h. q \<noteq> r \<longrightarrow> h' ! q = h ! q)"
      if "r < length h" "cum_prop_trf_sample_st r h = Inr (r', h')" for r h r' h'
      using cum_prop_trf_sample_st_frame [OF that(2)] that(1) by simp
  qed
  then show ?thesis
    by (simp add: calculate_cumulative_prop_trf_st_def calculate_cumulative_prop_trf_def
        for_each_pure)
qed

lemma map_nth_append_upt:
  "map (\<lambda>r. (h @ xs) ! r) [length h..<length h + length xs] = xs"
  by (rule nth_equalityI) (simp_all add: nth_append)

lemma run_st_outcome: "outcome (run_st sort_values input h) = run sort_values input"
proof (cases "check_columns input")
  case False
  then show ?thesis
    by (simp add: run_st_def run_def new_frame_def outcome_def)
next
  case chk: True
  let ?h0 = "h @ [input]"
  have rz: "frame_of (remove_zeros_st (length h) ?h0) = remove_zeros input"
    using remove_zeros_loop_st_value [of "index input" "length h" ?h0]
    by (simp add: remove_zeros_st_def remove_zeros_def)
  show ?thesis
  proof (cases "remove_zeros_st (length h) ?h0")
    case (Inl e)
    with rz have "remove_zeros input = Inl e" by simp
    with Inl chk show ?thesis
      by (simp add: run_st_def run_def new_frame_def outcome_def)
  next
    case (Inr p)
    obtain df1 h1 where p: "p = (df1, h1)" by (cases p)
    from rz Inr p have v1: "remove_zeros input = Inr (h1 ! df1)" by simp
    from remove_zeros_loop_st_frame [of "index (?h0 ! length h)" "length h" ?h0 df1 h1] Inr p
    have df1: "df1 < length h1" by (simp add: remove_zeros_st_def)
    let ?n = "length (columns (h1 ! df1))"
    let ?s0 = "[length h1..<length h1 + ?n]"
    let ?h2 = "h1 @ sort_bins sort_values (h1 ! df1)"
    have sb: "sort_bins_st sort_values df1 h1 = (?s0, ?h2)"
      using df1 by (rule sort_bins_st_eq)
    have len: "length (sort_bins sort_values (h1 ! df1)) = ?n"
      by (simp add: sort_bins_def)
    have v2: "map (\<lambda>r. ?h2 ! r) ?s0 = sort_bins sort_values (h1 ! df1)"
      using map_nth_append_upt [of h1 "sort_bins sort_values (h1 ! df1)"] len by simp
    have ok2: "distinct ?s0" "\<forall>r \<in> set ?s0. r < length ?h2"
      using len by simp_all
    note s1 = cum_rel_abund_st_refines [OF ok2, unfolded v2]
    show ?thesis
    proof (cases "calculate_cumulative_relative_abundance_st ?s0 ?h2")
      case (Inl e)
      with s1 have "calculate_cumulative_relative_abundance (sort_bins sort_values (h1 ! df1)) = Inl e"
        by simp
      with Inl chk Inr p sb v1 show ?thesis
        by (simp add: run_st_def run_def new_frame_def outcome_def)
    next
      case r1: (Inr p1)
      obtain samples1 h3 where p1: "p1 = (samples1, h3)" by (cases p1)
      from s1 r1 p1 have
        v3: "calculate_cumulative_relative_abundance (sort_bins sort_values (h1 ! df1)) =
              Inr (map (\<lambda>r. h3 ! r) samples1)" and
        ok3: "distinct samples1" "\<forall>r \<in> set samples1. r < length h3"
        by auto
      note s2 = over_one_st_refines [OF ok3]
      show ?thesis
      proof (cases "remove_cumulative_abundance_over_one_st samples1 h3")
        case (Inl e)
        with s2 have "remove_cumulative_abundance_over_one (map (\<lambda>r. h3 ! r) samples1) = Inl e"
          by simp
        with Inl chk Inr p sb v1 r1 p1 v3 show ?thesis
          by (simp add: run_st_def run_def new_frame_def outcome_def)
      next
        case r2: (Inr p2)
        obtain samples2 h4 where p2: "p2 = (samples2, h4)" by (cases p2)
        from s2 r2 p2 have
          v4: "remove_cumulative_abundance_over_one (map (\<lambda>r. h3 ! r) samples1) =
                Inr (map (\<lambda>r. h4 ! r) samples2)" and
          ok4: "distinct samples2" "\<forall>r \<in> set samples2. r < length h4"
          by auto
        note s3 = cum_prop_trf_st_refines [OF ok4]
        show ?thesis
        proof (cases "calculate_cumulative_prop_trf_st samples2 h4")
          case (Inl e)
          with s3 show ?thesis by simp
        next
          case r3: (Inr p3)
          obtain samples h5 where p3: "p3 = (samples, h5)" by (cases p3)
          from s3 r3 p3 have
            v5: "map (\<lambda>r. h5 ! r) samples =
                  calculate_cumulative_prop_trf (map (\<lambda>r. h4 ! r) samples2)"
            by simp
          show ?thesis
            using chk Inr p sb v1 r1 p1 v3 r2 p2 v4 r3 p3 v5
            by (simp add: run_st_def run_def new_frame_def outcome_def Let_def split: sum.splits)
        qed
      qed
    qed
  qed
qed

lemma take_prefix_trans:
  assumes "take (length h) h1 = h" "take (length h1) h2 = h1"
  shows "take (length h) h2 = h"
proof -
  have "length (take (length h) h1) \<le> length h1"
    by simp
  with assms(1) have "length h \<le> length h1"
    by simp
  then have "take (length h) (take (length h1) h2) = take (length h) h2"
    by (simp add: min_def)
  with assms show ?thesis by simp
qed

lemma for_each_st_prefix:
  assumes "\<And>r h r' h'. body r h = Inr (r', h') \<Longrightarrow> take (length h) h' = h"
  shows "for_each_st body rs h = Inr (out, h') \<Longrightarrow> take (length h) h' = h"
proof (induction rs arbitrary: h out)
  case Nil
  then show ?case by simp
next
  case (Cons r rs)
  from Cons.prems obtain r' h1 out' where
    b: "body r h = Inr (r', h1)" and rest: "for_each_st body rs h1 = Inr (out', h')"
    by (auto split: sum.splits)
  from assms [OF b] Cons.IH [OF rest] show ?case
    by (rule take_prefix_trans)
qed

lemma for_each_st_in_place:
  assumes "\<And>r h r' h'. body r h = Inr (r', h') \<Longrightarrow>
      r' = r \<and> length h' = length h \<and> (\<forall>q. q \<noteq> r \<longrightarrow> h' ! q = h ! q)"
  shows "for_each_st body rs h = Inr (out, h') \<Longrightarrow>
      out = rs \<and> length h' = length h \<and> (\<forall>q. q \<notin> set rs \<longrightarrow> h' ! q = h ! q)"
proof (induction rs arbitrary: h out)
  case Nil
  then show ?case by simp
next
  case (Cons r rs)
  from Cons.prems obtain r' h1 out' where
    b: "body r h = Inr (r', h1)" and rest: "for_each_st body rs h1 = Inr (out', h')"
    and out: "out = r' # out'"
    by (auto split: sum.splits)
  from assms [OF b] Cons.IH [OF rest] out show ?case
    by auto
qed

text \<open>
  C9. Two runs of the pipeline on the same input return the same sample tables and the
  same table of coefficients, or fail in the same way, whatever the store holds when each
  run starts, in particular when the second run starts in the store that the first has
  left.
\<close>

theorem run_twice_same_outcome:
  "outcome (run_st sort_values input h1) = outcome (run_st sort_values input h2)"
  by (simp add: run_st_outcome)

text \<open>
  C4 as stated fails: after the cumulative abundance step the two ranked samples of the
  caller have a second column, and the step returns the references it was given.
\<close>

theorem stages_in_place_counterexample:
  "calculate_cumulative_relative_abundance_st [0, 1] table_AB_ranked = Inr ([0, 1], table_AB_cum) \<and>
   table_AB_ranked ! 0 =
     \<lparr>columns = [''A''], rows = [(''bin1'', [1/2]), (''bin2'', [3/10]), (''bin3'', [2/10])]\<rparr> \<and>
   table_AB_cum ! 0 =
     \<lparr>columns = [''A'', ''Cum Rel Abund''],
      rows = [(''bin1'', [1/2, 1/2]), (''bin2'', [3/10, 8/10]), (''bin3'', [2/10, 1])]\<rparr> \<and>
   table_AB_cum ! 0 \<noteq> table_AB_ranked ! 0"
proof (intro conjI)
  show "calculate_cumulative_relative_abundance_st [0, 1] table_AB_ranked = Inr ([0, 1], table_AB_cum)"
    by code_simp
  show "table_AB_ranked ! 0 =
      \<lparr>columns = [''A''], rows = [(''bin1'', [1/2]), (''bin2'', [3/10]), (''bin3'', [2/10])]\<rparr>"
    by (simp add: table_AB_ranked_def)
  show "table_AB_cum ! 0 =
      \<lparr>columns = [''A'', ''Cum Rel Abund''],
       rows = [(''bin1'', [1/2, 1/2]), (''bin2'', [3/10, 8/10]), (''bin3'', [2/10, 1])]\<rparr>"
    by (simp add: table_AB_cum_def)
  show "table_AB_cum ! 0 \<noteq> table_AB_ranked ! 0"
    by (simp add: table_AB_cum_def table_AB_ranked_def)
qed

section \<open>Curve Builder: rank proportion of the truncated samples\<close>

text \<open>
  C6. The column Cum Prop TRFs is computed from the truncated samples, and these frames
  are what the run hands on: for every sample, whose truncated sequence has length m, the
  frame keeps the rows of the truncated sequence, the value at the 1-indexed position i is
  i/m, and the last value of a non-empty sample is 1.
\<close>

theorem rank_proportion_of_truncated_samples:
  assumes "remove_zeros df = Inr df1"
    and "calculate_cumulative_relative_abundance (sort_bins sort_values df1) = Inr cum"
    and "remove_cumulative_abundance_over_one cum = Inr truncated"
  shows "(check_columns df \<longrightarrow>
            run sort_values df =
              (case make_gini_file (calculate_cumulative_prop_trf truncated) of
                 Inl e \<Rightarrow> Inl e
               | Inr g \<Rightarrow> Inr (calculate_cumulative_prop_trf truncated, g))) \<and>
         length (calculate_cumulative_prop_trf truncated) = length truncated \<and>
         (\<forall>k < length truncated.
            index (calculate_cumulative_prop_trf truncated ! k) = index (truncated ! k) \<and>
            (\<exists>c. get_column (calculate_cumulative_prop_trf truncated ! k) ''Cum Prop TRFs'' = Inr c \<and>
                 length c = length (rows (truncated ! k)) \<and>
                 (\<forall>i < length c. c ! i = of_nat (i + 1) / of_nat (length (rows (truncated ! k)))) \<and>
                 (c \<noteq> [] \<longrightarrow> last c = 1)))"
proof (intro conjI allI impI)
  assume "check_columns df"
  then show "run sort_values df =
      (case make_gini_file (calculate_cumulative_prop_trf truncated) of
         Inl e \<Rightarrow> Inl e
       | Inr g \<Rightarrow> Inr (calculate_cumulative_prop_trf truncated, g))"
    using assms by (simp add: run_def Let_def)
next
  show "length (calculate_cumulative_prop_trf truncated) = length truncated"
    by (simp add: calculate_cumulative_prop_trf_def)
next
  fix k assume k: "k < length truncated"
  let ?s = "truncated ! k"
  let ?m = "length (rows ?s)"
  let ?c = "map (\<lambda>i. of_nat (i + 1) / of_nat ?m :: rat) [0..<?m]"
  have sk: "calculate_cumulative_prop_trf truncated ! k = set_column ''Cum Prop TRFs'' ?c ?s"
    using k by (simp add: calculate_cumulative_prop_trf_def cum_prop_trf_sample_eq)
  have "rect ?s"
    using truncated_frames [OF assms(3) cumulative_frames [OF assms(2)]] k by simp
  then have "get_column (calculate_cumulative_prop_trf truncated ! k) ''Cum Prop TRFs'' = Inr ?c"
    unfolding sk by (simp add: get_column_set_column)
  moreover have "?c \<noteq> [] \<longrightarrow> last ?c = 1"
  proof (cases ?m)
    case 0
    then show ?thesis by simp
  next
    case (Suc m')
    then show ?thesis by simp
  qed
  ultimately show "\<exists>c. get_column (calculate_cumulative_prop_trf truncated ! k) ''Cum Prop TRFs'' = Inr c \<and>
      length c = length (rows (truncated ! k)) \<and>
      (\<forall>i < length c. c ! i = of_nat (i + 1) / of_nat (length (rows (truncated ! k)))) \<and>
      (c \<noteq> [] \<longrightarrow> last c = 1)"
    by simp
  show "index (calculate_cumulative_prop_trf truncated ! k) = index (truncated ! k)"
    unfolding sk by (simp add: index_set_column)
qed

theorem rank_proportion_of_truncated_samples_witness:
  "calculate_cumulative_prop_trf table_one_truncated = table_one_samples \<and>
   run sort_values_descending table_one =
     (case make_gini_file table_one_samples of
        Inl e \<Rightarrow> Inl e
      | Inr g \<Rightarrow> Inr (table_one_samples, g)) \<and>
   index (table_one_samples ! 0) = index (table_one_truncated ! 0) \<and>
   get_column (table_one_samples ! 0) ''Cum Prop TRFs'' = Inr [1] \<and>
   get_column (table_one_samples ! 1) ''Cum Prop TRFs'' = Inr [1/2, 1]"
proof -
  have a: "remove_zeros table_one = Inr table_one"
    by code_simp
  have b: "calculate_cumulative_relative_abundance (sort_bins sort_values_descending table_one) =
      Inr table_one_cum"
    by code_simp
  have c: "remove_cumulative_abundance_over_one table_one_cum = Inr table_one_truncated"
    by code_simp
  have d: "check_columns table_one"
    by code_simp
  have e: "calculate_cumulative_prop_trf table_one_truncated = table_one_samples"
    by code_simp
  have k: "0 < length table_one_truncated"
    by (simp add: table_one_truncated_def)
  note t = rank_proportion_of_truncated_samples [OF a b c, unfolded e]
  from t d have "run sort_values_descending table_one =
      (case make_gini_file table_one_samples of
         Inl e \<Rightarrow> Inl e
       | Inr g \<Rightarrow> Inr (table_one_samples, g))"
    by blast
  moreover from t k have "index (table_one_samples ! 0) = index (table_one_truncated ! 0)"
    by blast
  moreover have "get_column (table_one_samples ! 0) ''Cum Prop TRFs'' = Inr [1]"
    by code_simp
  moreover have "get_column (table_one_samples ! 1) ''Cum Prop TRFs'' = Inr [1/2, 1]"
    by code_simp
  ultimately show ?thesis
    using e by blast
qed

section \<open>Inequality Scorer: what the scorer is given\<close>

lemma over_one_loop_found_Inr:
  "over_one_loop col ls True nf = Inr t \<Longrightarrow>
     t = nf\<lparr>rows := filter (\<lambda>row. fst row \<notin> set ls) (rows nf)\<rparr>"
proof (induction ls arbitrary: nf)
  case Nil
  then show ?case by simp
next
  case (Cons l ls)
  from Cons.prems have rec: "over_one_loop col ls True (drop_label l nf) = Inr t"
    by (auto split: option.splits if_splits)
  have "filter (\<lambda>row. fst row \<notin> set ls) (rows (drop_label l nf)) =
      filter (\<lambda>row. fst row \<notin> set (l # ls)) (rows nf)"
    by (auto simp: drop_label_def intro!: filter_cong)
  with Cons.IH [OF rec] show ?case
    by (simp add: drop_label_def)
qed

lemma single_label_elsewhere:
  assumes "length (filter (\<lambda>x. fst x = l) (xs @ y # ys)) = 1" "fst y = l"
  shows "filter (\<lambda>x. fst x = l) xs = [] \<and> filter (\<lambda>x. fst x = l) ys = []"
  using assms by simp

lemma over_one_loop_scan_Inr:
  assumes j: "index_of ''Cum Rel Abund'' (columns col) = Some j"
  shows "rows col = pre @ suf \<Longrightarrow>
     \<forall>p \<in> set pre. length (loc_rows col (fst p)) = 1 \<Longrightarrow>
     over_one_loop col (map fst suf) False col = Inr t \<Longrightarrow>
     t = col\<lparr>rows := pre @ keep_rows j suf\<rparr>"
proof (induction suf arbitrary: pre)
  case Nil
  then show ?case by (simp add: keep_rows_def)
next
  case (Cons row suf)
  from Cons.prems(3) j obtain r where sel: "loc_rows col (fst row) = [r]"
    by (auto split: list.splits)
  then have one: "length (filter (\<lambda>x. fst x = fst row) (pre @ row # suf)) = 1"
    using Cons.prems(1) by (simp add: loc_rows_def)
  then have r: "r = row"
    using sel Cons.prems(1) single_label_elsewhere [OF one] by (simp add: loc_rows_def)
  show ?case
  proof (cases "snd row ! j > 999999 / 1000000")
    case True
    with Cons.prems(3) j sel r have "over_one_loop col (map fst suf) True col = Inr t"
      by simp
    from over_one_loop_found_Inr [OF this]
    have t: "t = col\<lparr>rows := filter (\<lambda>x. fst x \<notin> set (map fst suf)) (rows col)\<rparr>" .
    have "filter (\<lambda>x. fst x \<notin> set (map fst suf)) pre = pre"
    proof -
      have "fst p \<notin> set (map fst suf)" if p: "p \<in> set pre" for p
      proof
        assume "fst p \<in> set (map fst suf)"
        then obtain q where q: "q \<in> set suf" "fst q = fst p" by auto
        from Cons.prems(2) p have "length (filter (\<lambda>x. fst x = fst p) (pre @ row # suf)) = 1"
          using Cons.prems(1) by (simp add: loc_rows_def)
        moreover have "filter (\<lambda>x. fst x = fst p) pre \<noteq> []"
          using p by (auto simp: filter_empty_conv)
        moreover have "filter (\<lambda>x. fst x = fst p) (row # suf) \<noteq> []"
          using q by (auto simp: filter_empty_conv)
        ultimately show False
          by (cases "filter (\<lambda>x. fst x = fst p) pre"; cases "filter (\<lambda>x. fst x = fst p) (row # suf)")
            simp_all
      qed
      then show ?thesis by (simp add: filter_id_conv)
    qed
    moreover have "filter (\<lambda>x. fst x \<notin> set (map fst suf)) suf = []"
      by (auto simp: filter_empty_conv)
    moreover have "fst row \<notin> set (map fst suf)"
    proof
      assume "fst row \<in> set (map fst suf)"
      then obtain q where "q \<in> set suf" "fst q = fst row" by auto
      then have "filter (\<lambda>x. fst x = fst row) suf \<noteq> []"
        by (auto simp: filter_empty_conv)
      with single_label_elsewhere [OF one] show False by simp
    qed
    ultimately have "filter (\<lambda>x. fst x \<notin> set (map fst suf)) (rows col) = pre @ [row]"
      using Cons.prems(1) by simp
    with t True show ?thesis
      by (simp add: keep_rows_def)
  next
    case False
    with Cons.prems(3) j sel r have rec: "over_one_loop col (map fst suf) False col = Inr t"
      by simp
    have inv: "\<forall>p \<in> set (pre @ [row]). length (loc_rows col (fst p)) = 1"
      using Cons.prems(2) sel by auto
    have "t = col\<lparr>rows := (pre @ [row]) @ keep_rows j suf\<rparr>"
      using Cons.IH [of "pre @ [row]"] Cons.prems(1) inv rec by simp
    with False show ?thesis
      by (simp add: keep_rows_def)
  qed
qed

lemma take_length_take: "take (length (take n rs)) rs = take n rs"
  by (simp add: min_def)

lemma keep_rows_prefix: "keep_rows j rs = take (length (keep_rows j rs)) rs"
proof -
  let ?P = "\<lambda>row. \<not> snd row ! j > 999999 / 1000000"
  have "xs @ take 1 ys = take (length xs + 1) (xs @ ys)" for xs ys :: "(string \<times> rat list) list"
    by simp
  from this [of "takeWhile ?P rs" "dropWhile ?P rs"]
  have "keep_rows j rs = take (length (takeWhile ?P rs) + 1) rs"
    unfolding keep_rows_def by simp
  then show ?thesis
    using take_length_take [of "length (takeWhile ?P rs) + 1" rs] by simp
qed

lemma over_one_sample_Inr_prefix:
  assumes "over_one_sample col = Inr t"
  shows "t = col\<lparr>rows := take (length (rows t)) (rows col)\<rparr>"
proof (cases "index_of ''Cum Rel Abund'' (columns col)")
  case None
  show ?thesis
  proof (cases "rows col")
    case Nil
    with assms show ?thesis by (simp add: over_one_sample_def index_def)
  next
    case (Cons r rs)
    with assms None show ?thesis by (simp add: over_one_sample_def index_def)
  qed
next
  case (Some j)
  from over_one_loop_scan_Inr [OF Some, of "[]" "rows col" t] assms
  have t: "t = col\<lparr>rows := keep_rows j (rows col)\<rparr>"
    by (simp add: over_one_sample_def index_def)
  then have "rows t = keep_rows j (rows col)" by simp
  with keep_rows_prefix [of j "rows col"] t show ?thesis by simp
qed

lemma loc_col_0_set_column_new:
  assumes "name \<notin> set (columns df)" "length vals = length (rows df)"
    and "\<forall>row \<in> set (rows df). snd row \<noteq> []"
  shows "loc_col (set_column name vals df) 0 = loc_col df 0"
proof (rule nth_equalityI)
  show "length (loc_col (set_column name vals df) 0) = length (loc_col df 0)"
    using assms(2) by (simp add: loc_col_def length_rows_set_column)
next
  fix i assume "i < length (loc_col (set_column name vals df) 0)"
  then have i: "i < length (rows df)"
    using assms(2) by (simp add: loc_col_def length_rows_set_column)
  then have "snd (rows df ! i) \<noteq> []"
    using assms(3) by simp
  then show "loc_col (set_column name vals df) 0 ! i = loc_col df 0 ! i"
    using i assms(1,2) by (simp add: loc_col_def length_rows_set_column set_column_new_rows nth_append)
qed

lemma cells_set_column_new:
  assumes "name \<notin> set (columns df)" "length vals = length (rows df)"
  shows "\<forall>row \<in> set (rows (set_column name vals df)). snd row \<noteq> []"
  using assms index_of_None_iff [of name "columns df"]
  by (auto simp: set_column_def split: option.splits)

lemma scorer_input_sample:
  assumes t1: "title \<noteq> ''Cum Rel Abund''" and t2: "title \<noteq> ''Cum Prop TRFs''"
    and c: "cum_rel_abund_sample (to_frame title xs) = Inr c"
    and t: "over_one_sample c = Inr t"
  shows "length (rows t) \<le> length xs \<and>
         index t = take (length (rows t)) (map fst xs) \<and>
         loc_col (cum_prop_trf_sample t) 0 = take (length (rows t)) (map snd xs)"
proof -
  let ?r = "to_frame title xs"
  let ?m = "length (rows t)"
  have r: "columns ?r = [title]" "index ?r = map fst xs" "loc_col ?r 0 = map snd xs"
    "length (rows ?r) = length xs" "\<forall>row \<in> set (rows ?r). snd row \<noteq> []"
    by (auto simp: to_frame_def index_def loc_col_def comp_def case_prod_beta)
  let ?V = "map (running (loc_col ?r 0)) [0..<length (rows ?r)]"
  have c_eq: "c = set_column ''Cum Rel Abund'' ?V ?r"
    using c cum_rel_abund_sample_eq [of ?r] r(1) by simp
  have new1: "''Cum Rel Abund'' \<notin> set (columns ?r)"
    using t1 r(1) by simp
  have cc: "columns c = [title, ''Cum Rel Abund'']" "index c = map fst xs"
    "loc_col c 0 = map snd xs" "length (rows c) = length xs"
    "\<forall>row \<in> set (rows c). snd row \<noteq> []"
    unfolding c_eq
    using new1 r cells_set_column_new [OF new1, of ?V]
    by (simp_all add: columns_set_column index_set_column loc_col_0_set_column_new
        length_rows_set_column)
  from over_one_sample_Inr_prefix [OF t]
  have t_eq: "t = c\<lparr>rows := take ?m (rows c)\<rparr>" .
  then have "rows t = take ?m (rows c)"
    by (metis dataframe.select_convs(2) dataframe.surjective dataframe.update_convs(2))
  then have rt: "rows t = take ?m (rows c)" "columns t = columns c"
    using t_eq by (simp, metis dataframe.select_convs(1) dataframe.surjective dataframe.update_convs(2))
  have "length (take ?m (rows c)) = ?m"
    using rt(1) by simp
  then have m: "?m \<le> length xs"
    using cc(4) by simp
  have it: "index t = take ?m (map fst xs)"
  proof -
    have "map fst (rows t) = map fst (take ?m (rows c))"
      by (rule arg_cong [OF rt(1)])
    also have "\<dots> = take ?m (map fst (rows c))"
      by (simp only: take_map)
    also have "\<dots> = take ?m (map fst xs)"
      using cc(2) by (simp only: index_def)
    finally show ?thesis
      by (simp only: index_def)
  qed
  have lt: "loc_col t 0 = take ?m (map snd xs)"
  proof -
    have "map (\<lambda>row. snd row ! 0) (rows t) = map (\<lambda>row. snd row ! 0) (take ?m (rows c))"
      by (rule arg_cong [OF rt(1)])
    also have "\<dots> = take ?m (map (\<lambda>row. snd row ! 0) (rows c))"
      by (simp only: take_map)
    also have "\<dots> = take ?m (map snd xs)"
      using cc(3) by (simp only: loc_col_def)
    finally show ?thesis
      by (simp only: loc_col_def)
  qed
  have "set (rows t) \<subseteq> set (rows c)"
    using set_take_subset [of ?m "rows c"] by (simp only: rt(1) [symmetric])
  then have cells: "\<forall>row \<in> set (rows t). snd row \<noteq> []"
    using cc(5) by blast
  have new2: "''Cum Prop TRFs'' \<notin> set (columns t)"
    using t2 rt(2) cc(1) by simp
  have "loc_col (cum_prop_trf_sample t) 0 = loc_col t 0"
    unfolding cum_prop_trf_sample_eq
    using new2 cells by (intro loc_col_0_set_column_new) simp_all
  with m it lt show ?thesis by simp
qed

text \<open>
  C1, as the program has it. The scorer is handed the samples that come out of truncation.
  In a run that returns (with unique sample names, none of them the name of a derived
  column), the row of coefficients of each sample holds the Gini coefficient of the ranked
  abundance values of the rows that truncation kept, that is of the first m values of the
  sample's ranked abundance column, where m is the length of its truncated sequence; and
  the reported n, which is also the n of the bias correction, is m.
\<close>

theorem gini_over_kept_ranked_abundances:
  assumes "run sort_values df = Inr (samples, g)" and "distinct (columns df)"
    and "''Cum Rel Abund'' \<notin> set (columns df)" and "''Cum Prop TRFs'' \<notin> set (columns df)"
  shows "\<exists>df1 cum truncated.
           remove_zeros df = Inr df1 \<and>
           calculate_cumulative_relative_abundance (sort_bins sort_values df1) = Inr cum \<and>
           remove_cumulative_abundance_over_one cum = Inr truncated \<and>
           length truncated = length (columns df) \<and>
           length g = length (columns df) \<and>
           (\<forall>k < length (columns df).
              (let ranked = sort_values (loc_series df1 k);
                   m = length (rows (truncated ! k))
               in m \<le> length ranked \<and>
                  index (truncated ! k) = take m (map fst ranked) \<and>
                  g ! k =
                    (columns df ! k,
                     Some \<lparr>Gini = calculate_gini (take m (map snd ranked)),
                           Corrected_Gini =
                             fmul (calculate_gini (take m (map snd ranked)))
                               (of_nat m / (of_nat m - 1)),
                           n_cell = m\<rparr>)))"
proof -
  from run_InrD [OF assms(1)] obtain df1 cum truncated where
    st: "remove_zeros df = Inr df1"
      "calculate_cumulative_relative_abundance (sort_bins sort_values df1) = Inr cum"
      "remove_cumulative_abundance_over_one cum = Inr truncated"
      "samples = calculate_cumulative_prop_trf truncated"
      "make_gini_file samples = Inr g"
    by blast
  let ?n = "length (columns df)"
  let ?ranked = "sort_bins sort_values df1"
  have cols: "columns df1 = columns df"
    using st(1) by (simp add: remove_zeros_def remove_zeros_loop_columns)
  have lr: "length ?ranked = ?n"
    by (simp add: sort_bins_def cols)
  from for_each_Inr_nth [OF st(2) [unfolded calculate_cumulative_relative_abundance_def]] lr
  have c: "length cum = ?n" "\<And>k. k < ?n \<Longrightarrow> cum_rel_abund_sample (?ranked ! k) = Inr (cum ! k)"
    by auto
  from for_each_Inr_nth [OF st(3) [unfolded remove_cumulative_abundance_over_one_def]] c(1)
  have t: "length truncated = ?n" "\<And>k. k < ?n \<Longrightarrow> over_one_sample (cum ! k) = Inr (truncated ! k)"
    by auto
  have ls: "length samples = ?n"
    using st(4) t(1) by (simp add: calculate_cumulative_prop_trf_def)
  have per: "length (rows (truncated ! k)) \<le> length (sort_values (loc_series df1 k)) \<and>
      index (truncated ! k) =
        take (length (rows (truncated ! k))) (map fst (sort_values (loc_series df1 k))) \<and>
      loc_col (samples ! k) 0 =
        take (length (rows (truncated ! k))) (map snd (sort_values (loc_series df1 k))) \<and>
      hd (columns (samples ! k)) = columns df ! k \<and>
      length (rows (samples ! k)) = length (rows (truncated ! k))"
    if k: "k < ?n" for k
  proof -
    let ?title = "columns df ! k"
    have title: "?title \<noteq> ''Cum Rel Abund''" "?title \<noteq> ''Cum Prop TRFs''"
      using assms(3,4) k by (metis nth_mem)+
    have r: "?ranked ! k = to_frame ?title (sort_values (loc_series df1 k))"
      using k by (simp add: sort_bins_def cols)
    have sk: "samples ! k = cum_prop_trf_sample (truncated ! k)"
      using k t(1) st(4) by (simp add: calculate_cumulative_prop_trf_def)
    note chain = scorer_input_sample [OF title c(2) [OF k, unfolded r] t(2) [OF k]]
    have ck: "columns (cum ! k) = [?title, ''Cum Rel Abund'']"
      using c(2) [OF k, unfolded r] cum_rel_abund_sample_eq [of "to_frame ?title (sort_values (loc_series df1 k))"]
        title(1)
      by (auto simp: to_frame_def columns_set_column)
    have "columns (truncated ! k) = columns (cum ! k)"
      using over_one_loop_frame [of "cum ! k" "index (cum ! k)" False "cum ! k" "truncated ! k"] t(2) [OF k]
      by (simp add: over_one_sample_def)
    then have "hd (columns (samples ! k)) = ?title"
      using ck by (simp add: sk cum_prop_trf_sample_eq columns_set_column)
    moreover have "length (rows (samples ! k)) = length (rows (truncated ! k))"
      by (simp add: sk cum_prop_trf_sample_eq length_rows_set_column)
    ultimately show ?thesis
      using chain by (simp add: sk)
  qed
  have titles: "map (\<lambda>s. hd (columns s)) samples = columns df"
    using ls per by (intro nth_equalityI) simp_all
  have g: "g = map (\<lambda>s. (hd (columns s), Some (gini_cells_of s))) samples"
    using make_gini_file_ok [OF make_gini_file_Inr_rows [OF st(5)]] titles assms(2) st(5)
    by simp
  have "length g = ?n"
    using ls by (simp add: g)
  moreover have "let ranked = sort_values (loc_series df1 k);
          m = length (rows (truncated ! k))
      in m \<le> length ranked \<and>
         index (truncated ! k) = take m (map fst ranked) \<and>
         g ! k =
           (columns df ! k,
            Some \<lparr>Gini = calculate_gini (take m (map snd ranked)),
                  Corrected_Gini =
                    fmul (calculate_gini (take m (map snd ranked))) (of_nat m / (of_nat m - 1)),
                  n_cell = m\<rparr>)"
    if k: "k < ?n" for k
    using per [OF k] k ls by (simp add: g gini_cells_of_def Let_def)
  ultimately show ?thesis
    using st(1,2,3) t(1) by blast
qed

theorem gini_over_kept_ranked_abundances_witness:
  "\<exists>df1 cum truncated.
     remove_zeros table_trunc = Inr df1 \<and>
     calculate_cumulative_relative_abundance (sort_bins sort_values_descending df1) = Inr cum \<and>
     remove_cumulative_abundance_over_one cum = Inr truncated \<and>
     length truncated = length (columns table_trunc) \<and>
     length table_trunc_gini = length (columns table_trunc) \<and>
     (\<forall>k < length (columns table_trunc).
        (let ranked = sort_values_descending (loc_series df1 k);
             m = length (rows (truncated ! k))
         in m \<le> length ranked \<and>
            index (truncated ! k) = take m (map fst ranked) \<and>
            table_trunc_gini ! k =
              (columns table_trunc ! k,
               Some \<lparr>Gini = calculate_gini (take m (map snd ranked)),
                     Corrected_Gini =
                       fmul (calculate_gini (take m (map snd ranked)))
                         (of_nat m / (of_nat m - 1)),
                     n_cell = m\<rparr>)))"
  by (rule gini_over_kept_ranked_abundances [OF run_table_trunc]) (simp_all add: table_trunc_def)

section \<open>The store: the frames of the caller\<close>

lemma check_columns_loop_st_eq:
  "check_columns_loop_st df js h = (check_columns_loop (h ! df) js, h)"
  by (induction js) (simp_all add: Let_def)

lemma check_columns_st_eq: "check_columns_st df h = (check_columns (h ! df), h)"
  by (simp add: check_columns_st_def check_columns_def check_columns_loop_st_eq)

lemma titles_loop_st_eq:
  "titles_loop_st cols h = (titles_loop (map (\<lambda>r. h ! r) cols), h)"
  by (induction cols) (simp_all split: list.splits sum.splits)

lemma gini_loop_st_eq:
  "gini_loop_st cols g h = (gini_loop (map (\<lambda>r. h ! r) cols) g, h)"
  by (induction cols arbitrary: g) (simp_all add: Let_def split: list.splits)

lemma make_gini_file_st_eq:
  "make_gini_file_st samples h = (make_gini_file (map (\<lambda>r. h ! r) samples), h)"
  by (simp add: make_gini_file_st_def make_gini_file_def titles_loop_st_eq gini_loop_st_eq
      split: sum.splits)

lemma drop_label_fewer_rows:
  assumes "l \<in> set (index d)"
  shows "length (rows (drop_label l d)) < length (rows d)"
proof -
  from assms obtain x where "x \<in> set (rows d)" "fst x = l"
    by (auto simp: index_def)
  then show ?thesis
    by (auto simp: drop_label_def intro: length_filter_less)
qed

lemma loc_rows_label: "loc_rows d l \<noteq> [] \<Longrightarrow> l \<in> set (index d)"
  by (auto simp: loc_rows_def index_def filter_empty_conv)

lemma remove_zeros_loop_st_result:
  "remove_zeros_loop_st ls df h = Inr (df1, h1) \<Longrightarrow>
     (df1 = df \<and> h1 = h) \<or>
     (length h \<le> df1 \<and> df1 < length h1 \<and> length (rows (h1 ! df1)) < length (rows (h ! df)))"
proof (induction ls arbitrary: df h)
  case Nil
  then show ?case by simp
next
  case (Cons l ls)
  let ?f = "drop_label l (h ! df)"
  from Cons.prems consider
      (same) "remove_zeros_loop_st ls df h = Inr (df1, h1)"
    | (new) "remove_zeros_loop_st ls (length h) (h @ [?f]) = Inr (df1, h1)" "loc_rows (h ! df) l \<noteq> []"
    by (auto simp: new_frame_def split: list.splits if_splits)
  then show ?case
  proof cases
    case same
    from Cons.IH [OF same] show ?thesis .
  next
    case new
    have less: "length (rows ?f) < length (rows (h ! df))"
      using new(2) by (intro drop_label_fewer_rows loc_rows_label)
    from Cons.IH [OF new(1)] less show ?thesis
      by auto
  qed
qed

lemma over_one_loop_st_result:
  "over_one_loop_st col ls found nf h = Inr (nf', h') \<Longrightarrow>
     (nf' = nf \<and> h' = h) \<or>
     (length h \<le> nf' \<and> nf' < length h' \<and> length (rows (h' ! nf')) < length (rows (h ! nf)))"
proof (induction ls arbitrary: found nf h)
  case Nil
  then show ?case by simp
next
  case (Cons l ls)
  let ?f = "drop_label l (h ! nf)"
  from Cons.prems consider
      (same) found' where "over_one_loop_st col ls found' nf h = Inr (nf', h')"
    | (new) "over_one_loop_st col ls True (length h) (h @ [?f]) = Inr (nf', h')"
        "l \<in> set (index (h ! nf))"
    by (auto simp: new_frame_def split: list.splits if_splits option.splits)
  then show ?case
  proof cases
    case same
    from Cons.IH [OF same] show ?thesis .
  next
    case new
    have less: "length (rows ?f) < length (rows (h ! nf))"
      using new(2) by (rule drop_label_fewer_rows)
    from Cons.IH [OF new(1)] less show ?thesis
      by auto
  qed
qed

lemma over_one_st_result:
  "for_each_st over_one_sample_st samples h = Inr (out, h3) \<Longrightarrow>
   \<forall>r \<in> set samples. r < length h \<Longrightarrow>
     length out = length samples \<and>
     (\<forall>k < length samples.
        out ! k = samples ! k \<or>
        (length h \<le> out ! k \<and> out ! k < length h3 \<and>
         length (rows (h3 ! (out ! k))) < length (rows (h ! (samples ! k)))))"
proof (induction samples arbitrary: h out)
  case Nil
  then show ?case by simp
next
  case (Cons r rs)
  from Cons.prems(1) obtain r' h1 out' where
    b: "over_one_sample_st r h = Inr (r', h1)" and
    rest: "for_each_st over_one_sample_st rs h1 = Inr (out', h3)" and
    out: "out = r' # out'"
    by (auto split: sum.splits)
  from over_one_sample_st_frame [OF b] have p1: "take (length h) h1 = h" "length h \<le> length h1"
    by simp_all
  have p3: "take (length h1) h3 = h1"
    using rest by (rule for_each_st_prefix [rotated]) (simp add: over_one_sample_st_frame)
  then have l13: "length h1 \<le> length h3"
    by (metis length_take min.cobounded1 min.commute)
  have valid: "\<forall>x \<in> set rs. x < length h1"
    using Cons.prems(2) p1(2) by auto
  from Cons.IH [OF rest valid] have IH: "length out' = length rs"
    "\<And>k. k < length rs \<Longrightarrow> out' ! k = rs ! k \<or>
        (length h1 \<le> out' ! k \<and> out' ! k < length h3 \<and>
         length (rows (h3 ! (out' ! k))) < length (rows (h1 ! (rs ! k))))"
    by auto
  from over_one_loop_st_result [OF b [unfolded over_one_sample_st_def]]
  have first: "r' = r \<or>
      (length h \<le> r' \<and> r' < length h3 \<and> length (rows (h3 ! r')) < length (rows (h ! r)))"
    using take_prefix_nth [OF p3] l13 by auto
  have "(r' # out') ! k = (r # rs) ! k \<or>
      (length h \<le> (r' # out') ! k \<and> (r' # out') ! k < length h3 \<and>
       length (rows (h3 ! ((r' # out') ! k))) < length (rows (h ! ((r # rs) ! k))))"
    if k: "k < length (r # rs)" for k
  proof (cases k)
    case 0
    with first show ?thesis by simp
  next
    case (Suc k')
    with k have k': "k' < length rs" by simp
    then have "rs ! k' < length h" using Cons.prems(2) by simp
    then have "h1 ! (rs ! k') = h ! (rs ! k')"
      using take_prefix_nth [OF p1(1)] by simp
    with IH(2) [OF k'] p1(2) Suc show ?thesis by auto
  qed
  with IH(1) out show ?case by simp
qed

text \<open>
  C4, as the program has it. The Validator and the Inequality Scorer only read the frames
  they are given. The Ranker leaves every frame that exists when it is called as it is
  and returns new frames. The Pruner and the truncation step leave every existing frame as
  it is; what they return is the very frame they were given when they drop no row, and a
  new frame with fewer rows otherwise. The two steps of the Curve Builder that add a
  column return the very frames they were given, changed in place: afterwards the frames
  of the caller hold the new column, and every other frame is as it was.
\<close>

theorem stages_and_the_frames_of_the_caller:
  "(check_columns_st df h = (ok, h0) \<longrightarrow> h0 = h \<and> ok = check_columns (h ! df)) \<and>
   (make_gini_file_st samples h = (res, h6) \<longrightarrow>
      h6 = h \<and> res = make_gini_file (map (\<lambda>r. h ! r) samples)) \<and>
   (remove_zeros_st df h = Inr (df1, h1) \<longrightarrow>
      take (length h) h1 = h \<and>
      ((df1 = df \<and> h1 = h) \<or>
       (length h \<le> df1 \<and> df1 < length h1 \<and>
        length (rows (h1 ! df1)) < length (rows (h ! df))))) \<and>
   (df < length h \<and> sort_bins_st sort_values df h = (ranked, h2) \<longrightarrow>
      take (length h) h2 = h \<and> (\<forall>r \<in> set ranked. length h \<le> r \<and> r < length h2)) \<and>
   (remove_cumulative_abundance_over_one_st samples h = Inr (truncated, h3) \<longrightarrow>
      take (length h) h3 = h \<and>
      ((\<forall>r \<in> set samples. r < length h) \<longrightarrow>
         length truncated = length samples \<and>
         (\<forall>k < length samples.
            truncated ! k = samples ! k \<or>
            (length h \<le> truncated ! k \<and> truncated ! k < length h3 \<and>
             length (rows (h3 ! (truncated ! k))) < length (rows (h ! (samples ! k))))))) \<and>
   (calculate_cumulative_relative_abundance_st samples h = Inr (out4, h4) \<longrightarrow>
      out4 = samples \<and> length h4 = length h \<and> (\<forall>q. q \<notin> set samples \<longrightarrow> h4 ! q = h ! q) \<and>
      (distinct samples \<and> (\<forall>r \<in> set samples. r < length h) \<longrightarrow>
         calculate_cumulative_relative_abundance (map (\<lambda>r. h ! r) samples) =
           Inr (map (\<lambda>r. h4 ! r) samples))) \<and>
   (calculate_cumulative_prop_trf_st samples h = Inr (out5, h5) \<longrightarrow>
      out5 = samples \<and> length h5 = length h \<and> (\<forall>q. q \<notin> set samples \<longrightarrow> h5 ! q = h ! q) \<and>
      (distinct samples \<and> (\<forall>r \<in> set samples. r < length h) \<longrightarrow>
         calculate_cumulative_prop_trf (map (\<lambda>r. h ! r) samples) = map (\<lambda>r. h5 ! r) samples))"
proof (intro conjI impI)
  assume "check_columns_st df h = (ok, h0)"
  then show "h0 = h" "ok = check_columns (h ! df)"
    by (auto simp: check_columns_st_eq)
next
  assume "make_gini_file_st samples h = (res, h6)"
  then show "h6 = h" "res = make_gini_file (map (\<lambda>r. h ! r) samples)"
    by (auto simp: make_gini_file_st_eq)
next
  assume a: "remove_zeros_st df h = Inr (df1, h1)"
  then show "take (length h) h1 = h"
    using remove_zeros_loop_st_frame [of "index (h ! df)" df h df1 h1]
    by (simp add: remove_zeros_st_def)
  from a show "(df1 = df \<and> h1 = h) \<or>
      (length h \<le> df1 \<and> df1 < length h1 \<and> length (rows (h1 ! df1)) < length (rows (h ! df)))"
    unfolding remove_zeros_st_def by (rule remove_zeros_loop_st_result)
next
  assume a: "df < length h \<and> sort_bins_st sort_values df h = (ranked, h2)"
  with sort_bins_st_eq [of df h sort_values]
  have "ranked = [length h..<length h + length (columns (h ! df))]"
    "h2 = h @ sort_bins sort_values (h ! df)"
    by simp_all
  then show "take (length h) h2 = h" "\<forall>r \<in> set ranked. length h \<le> r \<and> r < length h2"
    by (simp_all add: sort_bins_def)
next
  assume a: "remove_cumulative_abundance_over_one_st samples h = Inr (truncated, h3)"
  then show "take (length h) h3 = h"
    unfolding remove_cumulative_abundance_over_one_st_def
    by (rule for_each_st_prefix [rotated]) (simp add: over_one_sample_st_frame)
  assume "\<forall>r \<in> set samples. r < length h"
  with a over_one_st_result [of samples h truncated h3]
  show "length truncated = length samples"
    "\<forall>k < length samples.
        truncated ! k = samples ! k \<or>
        (length h \<le> truncated ! k \<and> truncated ! k < length h3 \<and>
         length (rows (h3 ! (truncated ! k))) < length (rows (h ! (samples ! k))))"
    by (simp_all add: remove_cumulative_abundance_over_one_st_def)
next
  assume a: "calculate_cumulative_relative_abundance_st samples h = Inr (out4, h4)"
  then have f: "out4 = samples \<and> length h4 = length h \<and> (\<forall>q. q \<notin> set samples \<longrightarrow> h4 ! q = h ! q)"
    unfolding calculate_cumulative_relative_abundance_st_def
    by (rule for_each_st_in_place [rotated]) (rule cum_rel_abund_sample_st_frame)
  then show "out4 = samples" "length h4 = length h" "\<forall>q. q \<notin> set samples \<longrightarrow> h4 ! q = h ! q"
    by simp_all
  assume "distinct samples \<and> (\<forall>r \<in> set samples. r < length h)"
  then show "calculate_cumulative_relative_abundance (map (\<lambda>r. h ! r) samples) =
      Inr (map (\<lambda>r. h4 ! r) samples)"
    using cum_rel_abund_st_refines [of samples h] a f by simp
next
  assume a: "calculate_cumulative_prop_trf_st samples h = Inr (out5, h5)"
  then have f: "out5 = samples \<and> length h5 = length h \<and> (\<forall>q. q \<notin> set samples \<longrightarrow> h5 ! q = h ! q)"
    unfolding calculate_cumulative_prop_trf_st_def
    by (rule for_each_st_in_place [rotated]) (rule cum_prop_trf_sample_st_frame)
  then show "out5 = samples" "length h5 = length h" "\<forall>q. q \<notin> set samples \<longrightarrow> h5 ! q = h ! q"
    by simp_all
  assume "distinct samples \<and> (\<forall>r \<in> set samples. r < length h)"
  then show "calculate_cumulative_prop_trf (map (\<lambda>r. h ! r) samples) = map (\<lambda>r. h5 ! r) samples"
    using cum_prop_trf_st_refines [of samples h] a f by simp
qed

theorem stages_and_the_frames_of_the_caller_witness:
  "check_columns (store_example ! 0) \<and>
   make_gini_file [store_example ! 1] =
     Inr [(''A'', Some \<lparr>Gini = Fin (1/2), Corrected_Gini = Fin 1, n_cell = 2\<rparr>)] \<and>
   take (length store_example)
     (store_example @ [\<lparr>columns = [''A''], rows = [(''bin1'', [1])]\<rparr>]) = store_example \<and>
   length (rows ((store_example @ [\<lparr>columns = [''A''], rows = [(''bin1'', [1])]\<rparr>]) ! 2)) <
     length (rows (store_example ! 0)) \<and>
   take (length store_example)
     (store_example @ [\<lparr>columns = [''A''], rows = [(''bin1'', [1]), (''bin2'', [0])]\<rparr>]) =
     store_example \<and>
   take (length store_example)
     (store_example @ [\<lparr>columns = [''A'', ''Cum Rel Abund''], rows = [(''bin1'', [1, 1])]\<rparr>]) =
     store_example \<and>
   length (rows ((store_example @
       [\<lparr>columns = [''A'', ''Cum Rel Abund''], rows = [(''bin1'', [1, 1])]\<rparr>]) ! 2)) <
     length (rows (store_example ! 1)) \<and>
   calculate_cumulative_relative_abundance [store_example ! 1] = Inr [store_example ! 1] \<and>
   calculate_cumulative_prop_trf [store_example ! 1] =
     [\<lparr>columns = [''A'', ''Cum Rel Abund'', ''Cum Prop TRFs''],
       rows = [(''bin1'', [1, 1, 1/2]), (''bin2'', [0, 1, 1])]\<rparr>]"
proof -
  let ?pruned = "\<lparr>columns = [''A''], rows = [(''bin1'', [1::rat])]\<rparr>"
  let ?ranked = "\<lparr>columns = [''A''], rows = [(''bin1'', [1::rat]), (''bin2'', [0])]\<rparr>"
  let ?cut = "\<lparr>columns = [''A'', ''Cum Rel Abund''], rows = [(''bin1'', [1::rat, 1])]\<rparr>"
  let ?g = "[(''A'', Some \<lparr>Gini = Fin (1/2), Corrected_Gini = Fin 1, n_cell = 2\<rparr>)]"
  let ?h5 = "[store_example ! 0,
              \<lparr>columns = [''A'', ''Cum Rel Abund'', ''Cum Prop TRFs''],
               rows = [(''bin1'', [1::rat, 1, 1/2]), (''bin2'', [0, 1, 1])]\<rparr>]"
  have v: "check_columns_st 0 store_example = (True, store_example)"
    by code_simp
  have s: "make_gini_file_st [1] store_example = (Inr ?g, store_example)"
    by code_simp
  have a: "remove_zeros_st 0 store_example = Inr (2, store_example @ [?pruned])"
    by code_simp
  have b: "0 < length store_example \<and>
      sort_bins_st sort_values_descending 0 store_example = ([2], store_example @ [?ranked])"
    by code_simp
  have c: "remove_cumulative_abundance_over_one_st [1] store_example =
      Inr ([2], store_example @ [?cut])"
    by code_simp
  have d: "calculate_cumulative_relative_abundance_st [1] store_example = Inr ([1], store_example)"
    by code_simp
  have e: "calculate_cumulative_prop_trf_st [1] store_example = Inr ([1], ?h5)"
    by code_simp
  have ok: "distinct [1::nat] \<and> (\<forall>r \<in> set [1]. r < length store_example)"
    by (simp add: store_example_def)
  note t = stages_and_the_frames_of_the_caller [where df = 0 and h = store_example
      and ok = True and ?h0.0 = store_example and samples = "[1]" and res = "Inr ?g"
      and ?h6.0 = store_example and ?df1.0 = 2 and ?h1.0 = "store_example @ [?pruned]"
      and sort_values = sort_values_descending and ranked = "[2]"
      and ?h2.0 = "store_example @ [?ranked]" and truncated = "[2]"
      and ?h3.0 = "store_example @ [?cut]" and ?out4.0 = "[1]" and ?h4.0 = store_example
      and ?out5.0 = "[1]" and ?h5.0 = ?h5]
  from t v have 1: "check_columns (store_example ! 0)"
    by blast
  from t s have 2: "make_gini_file (map (\<lambda>r. store_example ! r) [1]) = Inr ?g"
    by simp
  from t a have 3: "take (length store_example) (store_example @ [?pruned]) = store_example"
    and "(2 = (0::nat) \<and> store_example @ [?pruned] = store_example) \<or>
      (length store_example \<le> 2 \<and> 2 < length (store_example @ [?pruned]) \<and>
       length (rows ((store_example @ [?pruned]) ! 2)) < length (rows (store_example ! 0)))"
    by blast+
  then have 4: "length (rows ((store_example @ [?pruned]) ! 2)) < length (rows (store_example ! 0))"
    by simp
  from t b have 5: "take (length store_example) (store_example @ [?ranked]) = store_example"
    by blast
  from t c ok have 6: "take (length store_example) (store_example @ [?cut]) = store_example"
    and "\<forall>k < length [1::nat].
        [2::nat] ! k = [1] ! k \<or>
        (length store_example \<le> [2] ! k \<and> [2] ! k < length (store_example @ [?cut]) \<and>
         length (rows ((store_example @ [?cut]) ! ([2] ! k))) <
           length (rows (store_example ! ([1] ! k))))"
    by blast+
  then have 7: "length (rows ((store_example @ [?cut]) ! 2)) < length (rows (store_example ! 1))"
    by simp
  from t d ok have 8: "calculate_cumulative_relative_abundance (map (\<lambda>r. store_example ! r) [1]) =
      Inr (map (\<lambda>r. store_example ! r) [1])"
    by blast
  from t e ok have 9: "calculate_cumulative_prop_trf (map (\<lambda>r. store_example ! r) [1]) =
      map (\<lambda>r. ?h5 ! r) [1]"
    by blast
  from 1 2 3 4 5 6 7 8 9 show ?thesis by simp
qed

end
